theory Spec2Isabelle
  imports Complex_Main "HOL-Library.Word"
begin

section \<open>Incremental object clustering: the object update functor\<close>

text \<open>
  A shallow embedding of \<^verbatim>\<open>hydra_llm/src/object_update_functor.cpp\<close>.
  Mutable members of the functor become fields of a state record that every
  operation takes and returns; \<^verbatim>\<open>size_t\<close> is a 64-bit word.
\<close>

subsection \<open>IdTracker\<close>

type_synonym size_t = "64 word"

record IdTracker =
  idx :: size_t
  unused :: "size_t list"

definition IdTracker_init :: "size_t \<Rightarrow> IdTracker" where
  "IdTracker_init start = \<lparr>idx = start, unused = []\<rparr>"

text \<open>
  \<^verbatim>\<open>IdTracker::next\<close>: the result is the id handed out together with the updated
  tracker. \<^verbatim>\<open>++idx_\<close> wraps at \<open>2 ^ 64\<close>, as word addition does.
\<close>

definition IdTracker_next :: "IdTracker \<Rightarrow> size_t \<times> IdTracker" where
  "IdTracker_next t =
     (case unused t of
        [] \<Rightarrow> (idx t, t\<lparr>idx := idx t + 1\<rparr>)
      | u # us \<Rightarrow> (u, t\<lparr>unused := us\<rparr>))"

definition markFree :: "size_t \<Rightarrow> IdTracker \<Rightarrow> IdTracker" where
  "markFree i t = (if i < idx t then t\<lparr>unused := unused t @ [i]\<rparr> else t)"








subsection \<open>Vectors, bounding boxes and node attributes\<close>

text \<open>
  Eigen's three-component vectors are triples. Coordinates and feature entries are
  modelled as real numbers: rounding of the machine floating-point operations is not
  part of the model.
\<close>

type_synonym vec3 = "real \<times> real \<times> real"

definition vadd :: "vec3 \<Rightarrow> vec3 \<Rightarrow> vec3" where
  "vadd a b = (case a of (ax, ay, az) \<Rightarrow> case b of (bx, by, bz) \<Rightarrow> (ax + bx, ay + by, az + bz))"

definition vsub :: "vec3 \<Rightarrow> vec3 \<Rightarrow> vec3" where
  "vsub a b = (case a of (ax, ay, az) \<Rightarrow> case b of (bx, by, bz) \<Rightarrow> (ax - bx, ay - by, az - bz))"

definition vdiv :: "vec3 \<Rightarrow> nat \<Rightarrow> vec3" where
  "vdiv a n = (case a of (ax, ay, az) \<Rightarrow> (ax / real n, ay / real n, az / real n))"

definition vmin :: "vec3 \<Rightarrow> vec3 \<Rightarrow> vec3" where
  "vmin a b = (case a of (ax, ay, az) \<Rightarrow> case b of (bx, by, bz) \<Rightarrow> (min ax bx, min ay by, min az bz))"

text \<open>\<^verbatim>\<open>(a <= b).all()\<close> on two rows of an array.\<close>

definition all_le :: "vec3 \<Rightarrow> vec3 \<Rightarrow> bool" where
  "all_le a b = (case a of (ax, ay, az) \<Rightarrow> case b of (bx, by, bz) \<Rightarrow> ax \<le> bx \<and> ay \<le> by \<and> az \<le> bz)"

definition all_ge :: "vec3 \<Rightarrow> vec3 \<Rightarrow> bool" where
  "all_ge a b = (case a of (ax, ay, az) \<Rightarrow> case b of (bx, by, bz) \<Rightarrow> ax \<ge> bx \<and> ay \<ge> by \<and> az \<ge> bz)"

record BoundingBox =
  box_min :: vec3
  box_max :: vec3

text \<open>
  A semantic feature is a matrix, kept as the list of its rows; each row holds one
  entry per feature sample. \<^verbatim>\<open>rowwise().mean()\<close> turns it into a one-column matrix.
\<close>

type_synonym matrix = "real list list"

definition rowwise_mean :: "matrix \<Rightarrow> matrix" where
  "rowwise_mean m = map (\<lambda>row. [sum_list row / real (length row)]) m"

datatype error = CheckFailed | BadOptionalAccess | EmptyOptionalDeref | SizeMismatch

text \<open>\<^verbatim>\<open>a += b\<close> on dynamically sized matrices: the sizes have to agree.\<close>

definition mat_add :: "matrix \<Rightarrow> matrix \<Rightarrow> error + matrix" where
  "mat_add a b =
     (if map length a = map length b then Inr (map2 (map2 (+)) a b) else Inl SizeMismatch)"

definition mat_div :: "matrix \<Rightarrow> nat \<Rightarrow> matrix" where
  "mat_div a n = map (map (\<lambda>x. x / real n)) a"

text \<open>
  The fields of \<^verbatim>\<open>KhronosObjectAttributes\<close> that the functor reads or writes; every
  other field (time stamps, mesh, label, ...) is kept in \<open>details\<close>.
\<close>

record 'x KhronosObjectAttributes =
  position :: vec3
  is_active :: bool
  bounding_box :: BoundingBox
  semantic_feature :: matrix
  details :: 'x

subsection \<open>OverlapIntersection\<close>

record OverlapIntersection_Config =
  tolerance :: real

text \<open>
  \<^verbatim>\<open>OverlapIntersection::call\<close>: the four corners are the rows of \<^verbatim>\<open>combined\<close>, the
  column-wise minimum is subtracted from every row, then rows 0 and 3 and rows 2 and 1
  are compared. The configured tolerance is not read.
\<close>

definition OverlapIntersection_call ::
  "OverlapIntersection_Config \<Rightarrow> 'x KhronosObjectAttributes \<Rightarrow> 'x KhronosObjectAttributes \<Rightarrow> bool" where
  "OverlapIntersection_call config lhs rhs =
     (let bbox_lhs = bounding_box lhs;
          bbox_rhs = bounding_box rhs;
          row0 = box_min bbox_lhs;
          row1 = box_min bbox_rhs;
          row2 = box_max bbox_lhs;
          row3 = box_max bbox_rhs;
          mn = vmin row0 (vmin row1 (vmin row2 row3));
          r0 = vsub row0 mn; r1 = vsub row1 mn; r2 = vsub row2 mn; r3 = vsub row3 mn
      in all_le r0 r3 \<and> all_ge r2 r1)"

subsection \<open>The scene graph\<close>

type_synonym NodeId = nat

datatype LayerId = SEGMENTS | OBJECTS | PLACES

fun layer_rank :: "LayerId \<Rightarrow> nat" where
  "layer_rank SEGMENTS = 1"
| "layer_rank OBJECTS = 2"
| "layer_rank PLACES = 3"

record 'x SceneGraphNode =
  node_layer :: LayerId
  attributes :: "'x KhronosObjectAttributes"
  parent :: "NodeId option"

text \<open>
  Modelled from the spec: the graph store (\<^verbatim>\<open>DynamicSceneGraph\<close>) is an external
  collaborator whose sources are not part of the repository. The model keeps what the
  functor uses (section 6 of the specification): node lookup by id, iteration over a
  layer in ascending id order, edge insertion, node creation and removal, and parent
  lookup. Nodes are an association list, the first entry for an id being the node;
  \<open>edges\<close> holds the edges between nodes of one layer, an edge between two layers
  is the \<open>parent\<close> link of the node in the lower layer.
\<close>

record 'x DynamicSceneGraph =
  nodes :: "(NodeId \<times> 'x SceneGraphNode) list"
  edges :: "(NodeId \<times> NodeId) list"

definition getNode :: "'x DynamicSceneGraph \<Rightarrow> NodeId \<Rightarrow> 'x SceneGraphNode option" where
  "getNode g i = map_of (nodes g) i"

definition in_layer :: "'x DynamicSceneGraph \<Rightarrow> LayerId \<Rightarrow> NodeId \<Rightarrow> bool" where
  "in_layer g l i = (case getNode g i of None \<Rightarrow> False | Some n \<Rightarrow> node_layer n = l)"

definition layer_getNode :: "'x DynamicSceneGraph \<Rightarrow> LayerId \<Rightarrow> NodeId \<Rightarrow> 'x SceneGraphNode option" where
  "layer_getNode g l i = (if in_layer g l i then getNode g i else None)"

definition layer_ids :: "'x DynamicSceneGraph \<Rightarrow> LayerId \<Rightarrow> NodeId list" where
  "layer_ids g l = sort (remdups (filter (in_layer g l) (map fst (nodes g))))"

definition set_node :: "NodeId \<Rightarrow> 'x SceneGraphNode \<Rightarrow> 'x DynamicSceneGraph \<Rightarrow> 'x DynamicSceneGraph" where
  "set_node i n g = g\<lparr>nodes := map (\<lambda>(k, v). if k = i then (k, n) else (k, v)) (nodes g)\<rparr>"

definition hasEdge :: "'x DynamicSceneGraph \<Rightarrow> NodeId \<Rightarrow> NodeId \<Rightarrow> bool" where
  "hasEdge g a b = ((a, b) \<in> set (edges g) \<or> (b, a) \<in> set (edges g))"

definition insertEdge :: "'x DynamicSceneGraph \<Rightarrow> NodeId \<Rightarrow> NodeId \<Rightarrow> 'x DynamicSceneGraph" where
  "insertEdge g a b =
     (case (getNode g a, getNode g b) of
        (Some na, Some nb) \<Rightarrow>
          if node_layer na = node_layer nb then
            (if hasEdge g a b then g else g\<lparr>edges := edges g @ [(a, b)]\<rparr>)
          else if layer_rank (node_layer na) < layer_rank (node_layer nb) then
            set_node a (na\<lparr>parent := Some b\<rparr>) g
          else
            set_node b (nb\<lparr>parent := Some a\<rparr>) g
      | _ \<Rightarrow> g)"

definition removeNode :: "'x DynamicSceneGraph \<Rightarrow> NodeId \<Rightarrow> 'x DynamicSceneGraph" where
  "removeNode g i =
     g\<lparr>nodes := map (\<lambda>(k, v). (k, if parent v = Some i then v\<lparr>parent := None\<rparr> else v))
                   (filter (\<lambda>(k, v). k \<noteq> i) (nodes g)),
       edges := filter (\<lambda>(a, b). a \<noteq> i \<and> b \<noteq> i) (edges g)\<rparr>"

definition emplaceNode ::
  "'x DynamicSceneGraph \<Rightarrow> LayerId \<Rightarrow> NodeId \<Rightarrow> 'x KhronosObjectAttributes \<Rightarrow> 'x DynamicSceneGraph" where
  "emplaceNode g l i a =
     (case getNode g i of
        Some n \<Rightarrow> g
      | None \<Rightarrow> g\<lparr>nodes := nodes g @ [(i, \<lparr>node_layer = l, attributes = a, parent = None\<rparr>)]\<rparr>)"

subsection \<open>State of the functor\<close>

record ComponentInfo =
  segments :: "NodeId list"
  objects :: "NodeId list"

text \<open>
  What the functor does to the graph and what it logs, in the order it happens. The
  list of events is a history variable: no operation reads it.
\<close>

datatype event =
    Attach NodeId NodeId
  | DiscardingNearestNeighbor NodeId NodeId
  | SegmentEdge NodeId NodeId
  | RemoveObject NodeId
  | Retire size_t
  | Discover "NodeId list list"
  | Cluster size_t "NodeId list list"
  | EmptyCluster
  | Materialize NodeId
  | ParentLink NodeId NodeId
  | WithoutParent NodeId

text \<open>
  \<^verbatim>\<open>components_\<close> is a \<^verbatim>\<open>std::map\<close>, kept as an association list in key order;
  \<^verbatim>\<open>active_\<close> is a \<^verbatim>\<open>std::set\<close> that is iterated, kept as a sorted list without
  duplicates; \<^verbatim>\<open>node_to_component_\<close> and \<^verbatim>\<open>ignored_\<close> are only looked up.
\<close>

record ObjectUpdateFunctor =
  components_ids :: IdTracker
  components :: "(size_t \<times> ComponentInfo) list"
  node_to_component :: "NodeId \<rightharpoonup> size_t"
  ignored :: "NodeId set"
  active :: "NodeId list"
  next_node_id :: NodeId
  history :: "event list"

definition set_insert :: "NodeId \<Rightarrow> NodeId list \<Rightarrow> NodeId list" where
  "set_insert i xs = (if i \<in> set xs then xs else insort i xs)"

definition set_erase :: "NodeId \<Rightarrow> NodeId list \<Rightarrow> NodeId list" where
  "set_erase i xs = removeAll i xs"

text \<open>\<^verbatim>\<open>std::map::emplace\<close> leaves the map alone when the key is taken.\<close>

definition map_emplace ::
  "size_t \<Rightarrow> ComponentInfo \<Rightarrow> (size_t \<times> ComponentInfo) list \<Rightarrow> (size_t \<times> ComponentInfo) list" where
  "map_emplace k v m = (if k \<in> fst ` set m then m else insort_key fst (k, v) m)"

definition log_event :: "event \<Rightarrow> ObjectUpdateFunctor \<Rightarrow> ObjectUpdateFunctor" where
  "log_event e s = s\<lparr>history := history s @ [e]\<rparr>"

record Config =
  prefix :: nat
  edge_checker :: OverlapIntersection_Config
  min_segment_score :: real
  min_object_score :: real
  neighbor_max_distance :: real

text \<open>
  The collaborators the functor calls and whose code is elsewhere: task scoring
  (\<^verbatim>\<open>getBestScore\<close>, of which only the score is used), the agglomerative clustering of
  one component (\<^verbatim>\<open>ws.getClusters()\<close> after \<^verbatim>\<open>clusterAgglomerative\<close>), the
  nearest-neighbour search over the places with \<open>k = 1\<close> (the place found and its
  distance, if any), and Khronos' \<^verbatim>\<open>mergeObjectAttributes(from, into)\<close>.
\<close>

record 'x Oracles =
  getBestScore :: "matrix \<Rightarrow> real"
  getClusters :: "'x DynamicSceneGraph \<Rightarrow> NodeId list \<Rightarrow> NodeId list list"
  find_nearest :: "'x DynamicSceneGraph \<Rightarrow> NodeId list \<Rightarrow> vec3 \<Rightarrow> (NodeId \<times> real) option"
  mergeObjectAttributes ::
    "'x KhronosObjectAttributes \<Rightarrow> 'x KhronosObjectAttributes \<Rightarrow> 'x KhronosObjectAttributes"

definition NodeSymbol :: "nat \<Rightarrow> nat \<Rightarrow> NodeId" where
  "NodeSymbol c i = c * 2 ^ 56 + i"

definition ObjectUpdateFunctor_init :: "Config \<Rightarrow> ObjectUpdateFunctor" where
  "ObjectUpdateFunctor_init config =
     \<lparr>components_ids = IdTracker_init 0, components = [], node_to_component = Map.empty,
      ignored = {}, active = [], next_node_id = NodeSymbol (prefix config) 0, history = []\<rparr>"

definition isNodeActive :: "NodeId \<Rightarrow> (NodeId \<rightharpoonup> size_t) \<Rightarrow> NodeId set \<Rightarrow> bool" where
  "isNodeActive i n2c invalid = (n2c i = None \<and> i \<notin> invalid)"

subsection \<open>clearActiveComponents\<close>

definition retire_component ::
  "size_t \<times> ComponentInfo \<Rightarrow> 'x DynamicSceneGraph \<times> ObjectUpdateFunctor
     \<Rightarrow> 'x DynamicSceneGraph \<times> ObjectUpdateFunctor" where
  "retire_component kc gs =
     (case kc of (k, c) \<Rightarrow> case gs of (g, s) \<Rightarrow>
        let s1 = s\<lparr>node_to_component := fold (\<lambda>i m. m(i := None)) (segments c) (node_to_component s)\<rparr>;
            (g2, s2) = fold (\<lambda>i (g, s). (removeNode g i,
                               log_event (RemoveObject i) (s\<lparr>active := set_erase i (active s)\<rparr>)))
                            (objects c) (g, s1);
            s3 = s2\<lparr>components_ids := markFree k (components_ids s2)\<rparr>
        in (g2, log_event (Retire k) (s3\<lparr>components := filter (\<lambda>(k', c'). k' \<noteq> k) (components s3)\<rparr>)))"

definition clearActiveComponents ::
  "'x DynamicSceneGraph \<Rightarrow> size_t set \<Rightarrow> ObjectUpdateFunctor \<Rightarrow> 'x DynamicSceneGraph \<times> ObjectUpdateFunctor" where
  "clearActiveComponents g act s =
     fold (\<lambda>kc gs. if fst kc \<in> act then retire_component kc gs else gs) (components s) (g, s)"

subsection \<open>addSegmentEdges\<close>

definition check_other ::
  "Config \<Rightarrow> NodeId \<Rightarrow> 'x KhronosObjectAttributes \<Rightarrow> NodeId
     \<Rightarrow> size_t set \<times> 'x DynamicSceneGraph \<times> ObjectUpdateFunctor
     \<Rightarrow> size_t set \<times> 'x DynamicSceneGraph \<times> ObjectUpdateFunctor" where
  "check_other config node_id attrs other_id acs =
     (case acs of (active_components, g, s) \<Rightarrow>
        if other_id = node_id then acs
        else case getNode g other_id of
          None \<Rightarrow> acs
        | Some other_node \<Rightarrow>
            if OverlapIntersection_call (edge_checker config) attrs (attributes other_node) then
              (case node_to_component s other_id of
                 None \<Rightarrow> active_components
               | Some c \<Rightarrow> insert c active_components,
               insertEdge g node_id other_id,
               log_event (SegmentEdge node_id other_id) s)
            else acs)"

definition examine_segment ::
  "Config \<Rightarrow> 'x Oracles \<Rightarrow> NodeId list \<Rightarrow> NodeId
     \<Rightarrow> size_t set \<times> 'x DynamicSceneGraph \<times> ObjectUpdateFunctor
     \<Rightarrow> size_t set \<times> 'x DynamicSceneGraph \<times> ObjectUpdateFunctor" where
  "examine_segment config orc ids node_id acs =
     (case acs of (active_components, g, s) \<Rightarrow>
        case getNode g node_id of
          None \<Rightarrow> acs
        | Some node \<Rightarrow>
            let attrs = attributes node in
            if node_id \<in> ignored s then acs
            else if node_to_component s node_id \<noteq> None then acs
            else if getBestScore orc (rowwise_mean (semantic_feature attrs)) < min_segment_score config then
              (active_components,
               set_node node_id (node\<lparr>attributes := attrs\<lparr>is_active := False\<rparr>\<rparr>) g,
               s\<lparr>ignored := insert node_id (ignored s)\<rparr>)
            else fold (check_other config node_id attrs) ids acs)"

definition addSegmentEdges ::
  "Config \<Rightarrow> 'x Oracles \<Rightarrow> 'x DynamicSceneGraph \<Rightarrow> ObjectUpdateFunctor
     \<Rightarrow> size_t set \<times> 'x DynamicSceneGraph \<times> ObjectUpdateFunctor" where
  "addSegmentEdges config orc g s =
     (let ids = layer_ids g SEGMENTS in fold (examine_segment config orc ids) ids ({}, g, s))"

subsection \<open>getMergedAttributes\<close>

text \<open>
  The loop over the remaining members: a missing node makes the source dereference an
  empty optional, and a feature of another size cannot be added.
\<close>

fun merge_rest ::
  "'x Oracles \<Rightarrow> 'x DynamicSceneGraph \<Rightarrow> NodeId list \<Rightarrow> 'x KhronosObjectAttributes
     \<Rightarrow> error + 'x KhronosObjectAttributes" where
  "merge_rest orc g [] attrs = Inr attrs"
| "merge_rest orc g (i # is) attrs =
     (case getNode g i of
        None \<Rightarrow> Inl EmptyOptionalDeref
      | Some other \<Rightarrow>
          let other_attrs = attributes other;
              attrs1 = attrs\<lparr>position := vadd (position attrs) (position other_attrs)\<rparr>
          in case mat_add (semantic_feature attrs1) (rowwise_mean (semantic_feature other_attrs)) of
               Inl e \<Rightarrow> Inl e
             | Inr f \<Rightarrow>
                 merge_rest orc g is
                   (mergeObjectAttributes orc other_attrs (attrs1\<lparr>semantic_feature := f\<rparr>)))"

definition getMergedAttributes ::
  "'x Oracles \<Rightarrow> 'x DynamicSceneGraph \<Rightarrow> NodeId list \<Rightarrow> error + 'x KhronosObjectAttributes option" where
  "getMergedAttributes orc g node_ids =
     (case node_ids of
        [] \<Rightarrow> Inr None
      | i # is \<Rightarrow>
          (case getNode g i of
             None \<Rightarrow> Inl CheckFailed
           | Some node \<Rightarrow>
               let attrs0 = (attributes node)\<lparr>semantic_feature :=
                               rowwise_mean (semantic_feature (attributes node))\<rparr>
               in case merge_rest orc g is attrs0 of
                    Inl e \<Rightarrow> Inl e
                  | Inr attrs \<Rightarrow>
                      Inr (Some (attrs\<lparr>position := vdiv (position attrs) (length node_ids),
                                       semantic_feature :=
                                         mat_div (semantic_feature attrs) (length node_ids)\<rparr>))))"

subsection \<open>getBestParent\<close>

fun collect_parents ::
  "'x DynamicSceneGraph \<Rightarrow> NodeId list \<Rightarrow> NodeId list \<Rightarrow> NodeId list
     \<Rightarrow> error + (NodeId list \<times> NodeId list)" where
  "collect_parents g [] act archived = Inr (act, archived)"
| "collect_parents g (i # is) act archived =
     (case getNode g i of
        None \<Rightarrow> Inl BadOptionalAccess
      | Some node \<Rightarrow>
          (case parent node of
             None \<Rightarrow> collect_parents g is act archived
           | Some p \<Rightarrow>
               (case getNode g p of
                  None \<Rightarrow> Inl BadOptionalAccess
                | Some parent_node \<Rightarrow>
                    if is_active (attributes parent_node)
                    then collect_parents g is (act @ [p]) archived
                    else collect_parents g is act (archived @ [p]))))"

definition getBestParent ::
  "'x DynamicSceneGraph \<Rightarrow> NodeId list \<Rightarrow> error + (NodeId \<times> bool) option" where
  "getBestParent g node_ids =
     (case collect_parents g node_ids [] [] of
        Inl e \<Rightarrow> Inl e
      | Inr (act, archived) \<Rightarrow>
          (case archived of
             p # _ \<Rightarrow> Inr (Some (p, False))
           | [] \<Rightarrow> (case act of p # _ \<Rightarrow> Inr (Some (p, True)) | [] \<Rightarrow> Inr None)))"

subsection \<open>Connected components\<close>

text \<open>
  Modelled from the spec: \<^verbatim>\<open>graph_utilities::getConnectedComponents\<close> belongs to an
  external library. Section 4.6 of the specification: the search runs over the nodes
  of the layer that pass the node filter, follows only edges that pass the edge filter,
  and partitions those nodes into connected groups. One round of \<open>expand\<close> adds the
  candidates adjacent to the group; as many rounds as there are candidates reach
  every node of the group.
\<close>

definition adjacent :: "(NodeId \<times> NodeId) list \<Rightarrow> NodeId \<Rightarrow> NodeId \<Rightarrow> bool" where
  "adjacent es a b = ((a, b) \<in> set es \<or> (b, a) \<in> set es)"

definition expand :: "(NodeId \<times> NodeId) list \<Rightarrow> NodeId list \<Rightarrow> NodeId list \<Rightarrow> NodeId list" where
  "expand es cs grp =
     grp @ filter (\<lambda>c. c \<notin> set grp \<and> list_ex (\<lambda>m. adjacent es m c) grp) cs"

definition component_of :: "(NodeId \<times> NodeId) list \<Rightarrow> NodeId list \<Rightarrow> NodeId \<Rightarrow> NodeId list" where
  "component_of es cs n = ((expand es cs) ^^ (length cs)) [n]"

fun split_components :: "(NodeId \<times> NodeId) list \<Rightarrow> NodeId list \<Rightarrow> NodeId list list" where
  "split_components es [] = []"
| "split_components es (n # rest) =
     component_of es (n # rest) n
       # split_components es (filter (\<lambda>c. c \<notin> set (component_of es (n # rest) n)) rest)"

definition getConnectedComponents ::
  "'x DynamicSceneGraph \<Rightarrow> LayerId \<Rightarrow> (NodeId \<Rightarrow> bool) \<Rightarrow> (NodeId \<times> NodeId \<Rightarrow> bool)
     \<Rightarrow> NodeId list list" where
  "getConnectedComponents g l node_valid edge_valid =
     split_components (filter edge_valid (edges g)) (filter node_valid (layer_ids g l))"

subsection \<open>detectObjects\<close>

text \<open>
  One cluster of a new component: the accumulator is the graph, the functor state and
  the object list of the component under construction.
\<close>

definition materialize ::
  "Config \<Rightarrow> 'x Oracles \<Rightarrow> NodeId list
     \<Rightarrow> 'x DynamicSceneGraph \<times> ObjectUpdateFunctor \<times> NodeId list
     \<Rightarrow> error + ('x DynamicSceneGraph \<times> ObjectUpdateFunctor \<times> NodeId list)" where
  "materialize config orc cluster gso =
     (case gso of (g, s, objs) \<Rightarrow>
        case getMergedAttributes orc g cluster of
          Inl e \<Rightarrow> Inl e
        | Inr None \<Rightarrow> Inr (g, log_event EmptyCluster s, objs)
        | Inr (Some attrs) \<Rightarrow>
            if getBestScore orc (semantic_feature attrs) < min_object_score config then Inr gso
            else
              let new_id = next_node_id s;
                  g1 = emplaceNode g OBJECTS new_id attrs;
                  s1 = log_event (Materialize new_id) s;
                  objs1 = objs @ [new_id]
              in case getBestParent g1 cluster of
                   Inl e \<Rightarrow> Inl e
                 | Inr None \<Rightarrow>
                     Inr (g1,
                          (log_event (WithoutParent new_id) s1)
                            \<lparr>active := set_insert new_id (active s1), next_node_id := new_id + 1\<rparr>,
                          objs1)
                 | Inr (Some (parent_id, parent_active)) \<Rightarrow>
                     Inr (insertEdge g1 new_id parent_id,
                          (log_event (ParentLink new_id parent_id) s1)
                            \<lparr>active := (if parent_active then set_insert new_id (active s1)
                                         else active s1),
                             next_node_id := new_id + 1\<rparr>,
                          objs1))"

fun materialize_all ::
  "Config \<Rightarrow> 'x Oracles \<Rightarrow> NodeId list list
     \<Rightarrow> 'x DynamicSceneGraph \<times> ObjectUpdateFunctor \<times> NodeId list
     \<Rightarrow> error + ('x DynamicSceneGraph \<times> ObjectUpdateFunctor \<times> NodeId list)" where
  "materialize_all config orc [] gso = Inr gso"
| "materialize_all config orc (cluster # clusters) gso =
     (case materialize config orc cluster gso of
        Inl e \<Rightarrow> Inl e
      | Inr gso1 \<Rightarrow> materialize_all config orc clusters gso1)"

definition new_component ::
  "Config \<Rightarrow> 'x Oracles \<Rightarrow> NodeId list \<Rightarrow> 'x DynamicSceneGraph \<times> ObjectUpdateFunctor
     \<Rightarrow> error + ('x DynamicSceneGraph \<times> ObjectUpdateFunctor)" where
  "new_component config orc node_ids gs =
     (case gs of (g, s) \<Rightarrow>
        let (new_id, ids) = IdTracker_next (components_ids s);
            clusters = getClusters orc g node_ids;
            s1 = log_event (Cluster new_id clusters)
                   (s\<lparr>components_ids := ids,
                      node_to_component :=
                        fold (\<lambda>i m. m(i \<mapsto> new_id)) node_ids (node_to_component s)\<rparr>)
        in case materialize_all config orc clusters (g, s1, []) of
             Inl e \<Rightarrow> Inl e
           | Inr (g2, s2, objs) \<Rightarrow>
               Inr (g2, s2\<lparr>components :=
                             map_emplace new_id \<lparr>segments = node_ids, objects = objs\<rparr> (components s2)\<rparr>))"

fun new_components ::
  "Config \<Rightarrow> 'x Oracles \<Rightarrow> NodeId list list \<Rightarrow> 'x DynamicSceneGraph \<times> ObjectUpdateFunctor
     \<Rightarrow> error + ('x DynamicSceneGraph \<times> ObjectUpdateFunctor)" where
  "new_components config orc [] gs = Inr gs"
| "new_components config orc (node_ids # rest) gs =
     (case new_component config orc node_ids gs of
        Inl e \<Rightarrow> Inl e
      | Inr gs1 \<Rightarrow> new_components config orc rest gs1)"

definition detectObjects ::
  "Config \<Rightarrow> 'x Oracles \<Rightarrow> 'x DynamicSceneGraph \<Rightarrow> ObjectUpdateFunctor
     \<Rightarrow> error + ('x DynamicSceneGraph \<times> ObjectUpdateFunctor)" where
  "detectObjects config orc g s =
     (let found = getConnectedComponents g SEGMENTS
                    (\<lambda>i. isNodeActive i (node_to_component s) (ignored s))
                    (\<lambda>(a, b). isNodeActive a (node_to_component s) (ignored s)
                             \<and> isNodeActive b (node_to_component s) (ignored s))
      in new_components config orc found (g, log_event (Discover found) s))"

subsection \<open>updateActiveParents\<close>

text \<open>One iteration of the loop over \<^verbatim>\<open>active_\<close>, at the element \<open>i\<close>.\<close>

definition attach_one ::
  "Config \<Rightarrow> (vec3 \<Rightarrow> (NodeId \<times> real) option) \<Rightarrow> NodeId
     \<Rightarrow> 'x DynamicSceneGraph \<times> ObjectUpdateFunctor
     \<Rightarrow> error + ('x DynamicSceneGraph \<times> ObjectUpdateFunctor)" where
  "attach_one config finder i gs =
     (case gs of (g, s) \<Rightarrow>
        case getNode g i of
          None \<Rightarrow> Inl BadOptionalAccess
        | Some node \<Rightarrow>
            (case parent node of
               Some parent_id \<Rightarrow>
                 (case layer_getNode g PLACES parent_id of
                    None \<Rightarrow> Inl EmptyOptionalDeref
                  | Some p \<Rightarrow>
                      if is_active (attributes p) then Inr (g, s)
                      else Inr (g, s\<lparr>active := set_erase i (active s)\<rparr>))
             | None \<Rightarrow>
                 (case finder (position (attributes node)) of
                    None \<Rightarrow> Inr (g, s)
                  | Some (place_id, distance) \<Rightarrow>
                      let s1 = (if neighbor_max_distance config > 0
                                   \<and> distance \<ge> neighbor_max_distance config
                                then log_event (DiscardingNearestNeighbor place_id i) s else s)
                      in Inr (insertEdge g place_id i,
                              (log_event (Attach place_id i) s1)
                                \<lparr>active := set_erase i (active s1)\<rparr>))))"

fun attach_active ::
  "Config \<Rightarrow> (vec3 \<Rightarrow> (NodeId \<times> real) option) \<Rightarrow> NodeId list
     \<Rightarrow> 'x DynamicSceneGraph \<times> ObjectUpdateFunctor
     \<Rightarrow> error + ('x DynamicSceneGraph \<times> ObjectUpdateFunctor)" where
  "attach_active config finder [] gs = Inr gs"
| "attach_active config finder (i # is) gs =
     (case attach_one config finder i gs of
        Inl e \<Rightarrow> Inl e
      | Inr gs1 \<Rightarrow> attach_active config finder is gs1)"

definition updateActiveParents ::
  "Config \<Rightarrow> 'x Oracles \<Rightarrow> 'x DynamicSceneGraph \<Rightarrow> ObjectUpdateFunctor
     \<Rightarrow> error + ('x DynamicSceneGraph \<times> ObjectUpdateFunctor)" where
  "updateActiveParents config orc g s =
     (let place_ids = layer_ids g PLACES;
          s1 = s\<lparr>active := fold set_insert (layer_ids g OBJECTS) (active s)\<rparr>
      in attach_active config (find_nearest orc g place_ids) (active s1) (g, s1))"

subsection \<open>The per-cycle entry point\<close>

type_synonym MergeMap = "(NodeId \<times> NodeId) list"

definition call ::
  "Config \<Rightarrow> 'x Oracles \<Rightarrow> 'x DynamicSceneGraph \<Rightarrow> ObjectUpdateFunctor
     \<Rightarrow> error + (MergeMap \<times> 'x DynamicSceneGraph \<times> ObjectUpdateFunctor)" where
  "call config orc g s =
     (case updateActiveParents config orc g s of
        Inl e \<Rightarrow> Inl e
      | Inr (g1, s1) \<Rightarrow>
          let (active_components, g2, s2) = addSegmentEdges config orc g1 s1;
              (g3, s3) = clearActiveComponents g2 active_components s2
          in case detectObjects config orc g3 s3 of
               Inl e \<Rightarrow> Inl e
             | Inr (g4, s4) \<Rightarrow> Inr ([], g4, s4))"

subsection \<open>Notions used to state the properties\<close>

definition parent_of :: "'x DynamicSceneGraph \<Rightarrow> NodeId \<Rightarrow> NodeId option" where
  "parent_of g i = (case getNode g i of None \<Rightarrow> None | Some n \<Rightarrow> parent n)"

text \<open>A parent is stable when its node is no longer active, volatile otherwise.\<close>

definition stable_parent :: "'x DynamicSceneGraph \<Rightarrow> NodeId \<Rightarrow> bool" where
  "stable_parent g p = (case getNode g p of None \<Rightarrow> False | Some n \<Rightarrow> \<not> is_active (attributes n))"

text \<open>The parents of the members of a cluster, in the order of the member list.\<close>

definition member_parents :: "'x DynamicSceneGraph \<Rightarrow> NodeId list \<Rightarrow> NodeId list" where
  "member_parents g node_ids = List.map_filter (parent_of g) node_ids"

text \<open>
  The preference order of section 4.10 of the specification: the first stable parent
  if there is one, otherwise the first volatile parent, otherwise none.
\<close>

definition preferred_parent :: "'x DynamicSceneGraph \<Rightarrow> NodeId list \<Rightarrow> (NodeId \<times> bool) option" where
  "preferred_parent g node_ids =
     (case find (stable_parent g) (member_parents g node_ids) of
        Some p \<Rightarrow> Some (p, False)
      | None \<Rightarrow>
          (case find (\<lambda>p. \<not> stable_parent g p) (member_parents g node_ids) of
             Some p \<Rightarrow> Some (p, True)
           | None \<Rightarrow> None))"

text \<open>Every member of the list is a node, and so is the parent of every member that has one.\<close>

definition members_present :: "'x DynamicSceneGraph \<Rightarrow> NodeId list \<Rightarrow> bool" where
  "members_present g node_ids =
     list_all (\<lambda>i. getNode g i \<noteq> None
                  \<and> (case parent_of g i of None \<Rightarrow> True | Some p \<Rightarrow> getNode g p \<noteq> None)) node_ids"

text \<open>
  The phase of a cycle an event belongs to: anchor attachment, segment edges, component
  retirement, connected-component discovery, clustering and materialization.
\<close>

fun phase_rank :: "event \<Rightarrow> nat" where
  "phase_rank (Attach p i) = 0"
| "phase_rank (DiscardingNearestNeighbor p i) = 0"
| "phase_rank (SegmentEdge a b) = 1"
| "phase_rank (RemoveObject i) = 2"
| "phase_rank (Retire k) = 2"
| "phase_rank (Discover groups) = 3"
| "phase_rank (Cluster k clusters) = 4"
| "phase_rank EmptyCluster = 4"
| "phase_rank (Materialize i) = 4"
| "phase_rank (ParentLink i p) = 4"
| "phase_rank (WithoutParent i) = 4"

text \<open>
  The states the functor can be in: a fresh functor, and the state after any cycle
  that returns. The graph handed to a cycle is arbitrary, since its owner may change
  it between two cycles.
\<close>

inductive reachable :: "Config \<Rightarrow> 'x Oracles \<Rightarrow> ObjectUpdateFunctor \<Rightarrow> bool"
  for config :: Config and orc :: "'x Oracles" where
  reachable_init: "reachable config orc (ObjectUpdateFunctor_init config)"
| reachable_cycle:
    "reachable config orc s \<Longrightarrow> call config orc g s = Inr (m, g', s') \<Longrightarrow> reachable config orc s'"

text \<open>\<open>later_state config orc s s'\<close>: some number of cycles, possibly none, leads from \<open>s\<close> to \<open>s'\<close>.\<close>

inductive later_state :: "Config \<Rightarrow> 'x Oracles \<Rightarrow> ObjectUpdateFunctor \<Rightarrow> ObjectUpdateFunctor \<Rightarrow> bool"
  for config :: Config and orc :: "'x Oracles" and s :: ObjectUpdateFunctor where
  later_now: "later_state config orc s s"
| later_cycle:
    "later_state config orc s s1 \<Longrightarrow> call config orc g s1 = Inr (m, g', s2) \<Longrightarrow> later_state config orc s s2"

text \<open>The segment lists of two live components with different identifiers share no id.\<close>

definition segments_disjoint :: "ObjectUpdateFunctor \<Rightarrow> bool" where
  "segments_disjoint s =
     (\<forall>(k, c) \<in> set (components s). \<forall>(k', c') \<in> set (components s).
        k \<noteq> k' \<longrightarrow> set (segments c) \<inter> set (segments c') = {})"

text \<open>The segments of every live component are registered in \<^verbatim>\<open>node_to_component_\<close> and not ignored.\<close>

definition segments_registered :: "ObjectUpdateFunctor \<Rightarrow> bool" where
  "segments_registered s =
     (\<forall>(k, c) \<in> set (components s).
        set (segments c) \<subseteq> dom (node_to_component s) \<and> set (segments c) \<inter> ignored s = {})"

text \<open>The Active Set holds only ids of object nodes of the graph.\<close>

definition active_are_objects :: "'x DynamicSceneGraph \<Rightarrow> ObjectUpdateFunctor \<Rightarrow> bool" where
  "active_are_objects g s = list_all (in_layer g OBJECTS) (active s)"


text \<open>
  \<open>objects_added g s g' s'\<close>: on the way from \<open>g\<close> and \<open>s\<close> to \<open>g'\<close> and \<open>s'\<close>
  no node left its layer, every new node is an object node whose id was issued on the
  way, and every id that entered the Active Set was issued on the way and, if it was
  not taken before, is an object node now.
\<close>

definition objects_added ::
  "'x DynamicSceneGraph \<Rightarrow> ObjectUpdateFunctor \<Rightarrow> 'x DynamicSceneGraph \<Rightarrow> ObjectUpdateFunctor \<Rightarrow> bool" where
  "objects_added g s g' s' =
     (next_node_id s \<le> next_node_id s'
      \<and> (\<forall>l i. in_layer g l i \<longrightarrow> in_layer g' l i)
      \<and> (\<forall>l i. in_layer g' l i \<longrightarrow>
             in_layer g l i \<or> (l = OBJECTS \<and> next_node_id s \<le> i \<and> i < next_node_id s'))
      \<and> (\<forall>i \<in> set (active s'). i \<in> set (active s)
             \<or> (next_node_id s \<le> i \<and> i < next_node_id s'
                 \<and> (getNode g i = None \<longrightarrow> in_layer g' OBJECTS i))))"

text \<open>
  \<open>nodes_kept g g'\<close>: both graphs have the same nodes, in the same layers and with the
  same features and bounding boxes; an active flag may have been cleared on the way from
  \<open>g\<close> to \<open>g'\<close>.
\<close>

definition node_kept :: "'x SceneGraphNode \<Rightarrow> 'x SceneGraphNode \<Rightarrow> bool" where
  "node_kept n n' =
     (node_layer n' = node_layer n
      \<and> semantic_feature (attributes n') = semantic_feature (attributes n)
      \<and> bounding_box (attributes n') = bounding_box (attributes n)
      \<and> (is_active (attributes n') \<longrightarrow> is_active (attributes n)))"

definition nodes_kept :: "'x DynamicSceneGraph \<Rightarrow> 'x DynamicSceneGraph \<Rightarrow> bool" where
  "nodes_kept g g' = (\<forall>i. rel_option node_kept (getNode g i) (getNode g' i))"

text \<open>The graph has no segment node of id \<open>i\<close> whose active flag is set.\<close>

definition no_active_segment :: "'x DynamicSceneGraph \<Rightarrow> NodeId \<Rightarrow> bool" where
  "no_active_segment g i =
     (case getNode g i of
        None \<Rightarrow> True
      | Some n \<Rightarrow> node_layer n = SEGMENTS \<longrightarrow> \<not> is_active (attributes n))"

text \<open>No id occurs in two groups of the list.\<close>

fun groups_disjoint :: "NodeId list list \<Rightarrow> bool" where
  "groups_disjoint [] = True"
| "groups_disjoint (G # Gs) = (list_all (\<lambda>H. set G \<inter> set H = {}) Gs \<and> groups_disjoint Gs)"

text \<open>The identifiers of live components are distinct, as the keys of a map are.\<close>

definition component_invariant :: "ObjectUpdateFunctor \<Rightarrow> bool" where
  "component_invariant s =
     (distinct (map fst (components s)) \<and> segments_registered s \<and> segments_disjoint s)"

text \<open>
  The order of the phases as section 5 of the specification states it: segment edges,
  then component retirement, discovery, clustering and materialization, and anchor
  attachment last.
\<close>

fun claimed_phase_rank :: "event \<Rightarrow> nat" where
  "claimed_phase_rank (SegmentEdge a b) = 0"
| "claimed_phase_rank (RemoveObject i) = 1"
| "claimed_phase_rank (Retire k) = 1"
| "claimed_phase_rank (Discover groups) = 2"
| "claimed_phase_rank (Cluster k clusters) = 3"
| "claimed_phase_rank EmptyCluster = 3"
| "claimed_phase_rank (Materialize i) = 3"
| "claimed_phase_rank (ParentLink i p) = 3"
| "claimed_phase_rank (WithoutParent i) = 3"
| "claimed_phase_rank (Attach p i) = 4"
| "claimed_phase_rank (DiscardingNearestNeighbor p i) = 4"

text \<open>Whether a cycle returns, and the state and the graph it leaves.\<close>

definition cycle_returns ::
  "Config \<Rightarrow> 'x Oracles \<Rightarrow> 'x DynamicSceneGraph \<Rightarrow> ObjectUpdateFunctor \<Rightarrow> bool" where
  "cycle_returns config orc g s = (case call config orc g s of Inl e \<Rightarrow> False | Inr r \<Rightarrow> True)"

definition state_after ::
  "Config \<Rightarrow> 'x Oracles \<Rightarrow> 'x DynamicSceneGraph \<Rightarrow> ObjectUpdateFunctor \<Rightarrow> ObjectUpdateFunctor" where
  "state_after config orc g s = (case call config orc g s of Inl e \<Rightarrow> s | Inr (m, g', s') \<Rightarrow> s')"

definition graph_after ::
  "Config \<Rightarrow> 'x Oracles \<Rightarrow> 'x DynamicSceneGraph \<Rightarrow> ObjectUpdateFunctor \<Rightarrow> 'x DynamicSceneGraph" where
  "graph_after config orc g s = (case call config orc g s of Inl e \<Rightarrow> g | Inr (m, g', s') \<Rightarrow> g')"

subsection \<open>Example inputs\<close>

definition example_config :: Config where
  "example_config =
     \<lparr>prefix = 0, edge_checker = \<lparr>tolerance = 1\<rparr>, min_segment_score = 1 / 2,
      min_object_score = 1 / 2, neighbor_max_distance = 1\<rparr>"

text \<open>
  The score of a feature is its first entry, a component is one cluster, the nearest
  place is the first one and lies at distance 5, and the auxiliary merge keeps the
  attributes it merges into.
\<close>

definition example_oracles :: "unit Oracles" where
  "example_oracles =
     \<lparr>getBestScore = (\<lambda>m. case m of (x # _) # _ \<Rightarrow> x | _ \<Rightarrow> 0),
      getClusters = (\<lambda>g node_ids. [node_ids]),
      find_nearest = (\<lambda>g place_ids pos. case place_ids of [] \<Rightarrow> None | p # _ \<Rightarrow> Some (p, 5)),
      mergeObjectAttributes = (\<lambda>from into. into)\<rparr>"

text \<open>A segment whose box is the cube from \<open>lo\<close> to \<open>hi\<close>, with a one-entry feature.\<close>

definition segment_node :: "real \<Rightarrow> real \<Rightarrow> real \<Rightarrow> NodeId option \<Rightarrow> unit SceneGraphNode" where
  "segment_node lo hi score p =
     \<lparr>node_layer = SEGMENTS,
      attributes = \<lparr>position = (lo, lo, lo), is_active = True,
                    bounding_box = \<lparr>box_min = (lo, lo, lo), box_max = (hi, hi, hi)\<rparr>,
                    semantic_feature = [[score]], details = ()\<rparr>,
      parent = p\<rparr>"

definition place_node :: "bool \<Rightarrow> unit SceneGraphNode" where
  "place_node act =
     \<lparr>node_layer = PLACES,
      attributes = \<lparr>position = (0, 0, 0), is_active = act,
                    bounding_box = \<lparr>box_min = (0, 0, 0), box_max = (0, 0, 0)\<rparr>,
                    semantic_feature = [], details = ()\<rparr>,
      parent = None\<rparr>"

definition object_node :: "NodeId option \<Rightarrow> unit SceneGraphNode" where
  "object_node p =
     \<lparr>node_layer = OBJECTS,
      attributes = \<lparr>position = (0, 0, 0), is_active = True,
                    bounding_box = \<lparr>box_min = (0, 0, 0), box_max = (1, 1, 1)\<rparr>,
                    semantic_feature = [[1]], details = ()\<rparr>,
      parent = p\<rparr>"

text \<open>Three segments whose parents are a volatile place and two stable places, in this order.\<close>

definition parents_graph :: "unit DynamicSceneGraph" where
  "parents_graph =
     \<lparr>nodes = [(1, segment_node 0 1 1 (Some 10)), (2, segment_node 0 1 1 (Some 11)),
               (3, segment_node 0 1 1 (Some 12)),
               (10, place_node True), (11, place_node False), (12, place_node False)],
      edges = []\<rparr>"

text \<open>Two overlapping segments, none with a parent.\<close>

definition pair_graph :: "unit DynamicSceneGraph" where
  "pair_graph = \<lparr>nodes = [(10, segment_node 0 2 1 None), (11, segment_node 1 3 3 None)], edges = []\<rparr>"

text \<open>A place and an object node that has no parent.\<close>

definition attach_graph :: "unit DynamicSceneGraph" where
  "attach_graph = \<lparr>nodes = [(100, place_node True), (50, object_node None)], edges = []\<rparr>"

text \<open>Two segments far apart.\<close>

definition apart_graph :: "unit DynamicSceneGraph" where
  "apart_graph = \<lparr>nodes = [(10, segment_node 0 1 1 None), (11, segment_node 5 6 1 None)], edges = []\<rparr>"

text \<open>A place, an object without parent and two overlapping segments that are new.\<close>

definition cycle_graph :: "unit DynamicSceneGraph" where
  "cycle_graph =
     \<lparr>nodes = [(100, place_node True), (50, object_node None),
               (10, segment_node 0 2 1 None), (11, segment_node 1 3 3 None)],
      edges = []\<rparr>"

text \<open>
  One segment whose score is below the minimum; and the graph a first cycle leaves of
  it, to which a second segment that overlaps the first has been added.
\<close>

definition low_score_graph :: "unit DynamicSceneGraph" where
  "low_score_graph = \<lparr>nodes = [(1, segment_node 0 2 0 None)], edges = []\<rparr>"

definition low_score_graph_later :: "unit DynamicSceneGraph" where
  "low_score_graph_later =
     emplaceNode
       (graph_after example_config example_oracles low_score_graph
          (ObjectUpdateFunctor_init example_config))
       SEGMENTS 2 (attributes (segment_node 1 3 1 None))"




section \<open>Properties\<close>

subsection \<open>The graph store and the set representation\<close>

lemma map_of_replace:
  "map_of (map (\<lambda>(k, v). if k = j then (k, n) else (k, v)) xs) i =
     (if i = j then (if map_of xs j = None then None else Some n) else map_of xs i)"
  by (induction xs) auto

lemma getNode_set_node:
  "getNode (set_node j n g) i =
     (if i = j then (if getNode g j = None then None else Some n) else getNode g i)"
  by (simp add: getNode_def set_node_def map_of_replace)

lemma getNode_insertEdge_other:
  assumes "i \<noteq> a" and "i \<noteq> b"
  shows "getNode (insertEdge g a b) i = getNode g i"
  using assms
  by (auto simp: insertEdge_def getNode_set_node split: option.splits) (simp_all add: getNode_def)

lemma getNode_insertEdge_cases:
  "getNode (insertEdge g a b) i = getNode g i
   \<or> (\<exists>n p. getNode g i = Some n \<and> getNode (insertEdge g a b) i = Some (n\<lparr>parent := Some p\<rparr>))"
  by (auto simp: insertEdge_def getNode_set_node split: option.splits) (simp_all add: getNode_def)

lemma in_layer_insertEdge: "in_layer (insertEdge g a b) l i = in_layer g l i"
  using getNode_insertEdge_cases[of g a b i] by (auto simp: in_layer_def split: option.splits)

lemma getNode_insertEdge_parent:
  assumes "getNode g p = Some np" and "getNode g i = Some ni"
    and "layer_rank (node_layer ni) < layer_rank (node_layer np)"
  shows "getNode (insertEdge g p i) i = Some (ni\<lparr>parent := Some p\<rparr>)"
    and "getNode (insertEdge g i p) i = Some (ni\<lparr>parent := Some p\<rparr>)"
  using assms by (auto simp: insertEdge_def getNode_set_node)

lemma getNode_insertEdge_upper:
  assumes "getNode g p = Some np" and "\<forall>n. getNode g i = Some n \<longrightarrow> layer_rank (node_layer n) \<le> layer_rank (node_layer np)"
    and "j \<noteq> i"
  shows "getNode (insertEdge g p i) j = getNode g j"
  using assms
  by (auto simp: insertEdge_def getNode_set_node split: option.splits) (simp_all add: getNode_def)

lemma map_of_remove:
  "map_of (map (\<lambda>(k, v). (k, f v)) (filter (\<lambda>(k, v). k \<noteq> j) xs)) i =
     (if i = j then None else map_option f (map_of xs i))"
  by (induction xs) auto

lemma getNode_removeNode:
  "getNode (removeNode g j) i =
     (if i = j then None
      else map_option (\<lambda>v. if parent v = Some j then v\<lparr>parent := None\<rparr> else v) (getNode g i))"
  by (simp add: getNode_def removeNode_def map_of_remove)

lemma in_layer_removeNode: "in_layer (removeNode g j) l i = (i \<noteq> j \<and> in_layer g l i)"
  by (auto simp: in_layer_def getNode_removeNode split: option.splits)

lemma getNode_emplaceNode:
  "getNode (emplaceNode g l j a) i =
     (if i = j \<and> getNode g j = None then Some \<lparr>node_layer = l, attributes = a, parent = None\<rparr>
      else getNode g i)"
  by (auto simp: emplaceNode_def getNode_def map_add_def split: option.splits)

lemma in_layer_emplaceNode:
  "in_layer (emplaceNode g l j a) l' i =
     (if i = j \<and> getNode g j = None then l' = l else in_layer g l' i)"
  by (auto simp: in_layer_def getNode_emplaceNode)

lemma in_layer_set_node:
  "getNode g j = Some n \<Longrightarrow> node_layer n' = node_layer n \<Longrightarrow>
   in_layer (set_node j n' g) l i = in_layer g l i"
  by (auto simp: in_layer_def getNode_set_node)

lemma set_layer_ids: "set (layer_ids g l) = {i. in_layer g l i}"
proof -
  have "in_layer g l i \<Longrightarrow> i \<in> fst ` set (nodes g)" for i
    by (auto simp: in_layer_def getNode_def split: option.splits dest: map_of_SomeD intro: rev_image_eqI)
  then show ?thesis by (auto simp: layer_ids_def)
qed

lemma distinct_layer_ids: "distinct (layer_ids g l)"
  by (simp add: layer_ids_def)

lemma set_set_insert: "set (set_insert i xs) = insert i (set xs)"
  by (auto simp: set_insert_def set_insort_key)

lemma set_fold_set_insert: "set (fold set_insert is xs) = set is \<union> set xs"
  by (induction "is" arbitrary: xs) (auto simp: set_set_insert)

lemma set_set_erase: "set (set_erase i xs) = set xs - {i}"
  by (auto simp: set_erase_def)

subsection \<open>The identifier pool\<close>




















subsection \<open>The connectivity predicate\<close>

lemma OverlapIntersection_symmetric:
  "OverlapIntersection_call config lhs rhs = OverlapIntersection_call config rhs lhs"
  by (auto simp: OverlapIntersection_call_def Let_def vmin_def vsub_def all_le_def all_ge_def
           split: prod.splits)

lemma OverlapIntersection_tolerance_unused:
  "OverlapIntersection_call config lhs rhs = OverlapIntersection_call config' lhs rhs"
  by (simp add: OverlapIntersection_call_def)

text \<open>
  C2. Two unit cubes half a unit apart, with a configured tolerance of one unit: the
  predicate answers as it does with tolerance zero, namely that the boxes are not
  connected. The tolerance neither expands nor contracts the extents.
\<close>

theorem OverlapIntersection_gap_within_tolerance:
  "\<not> OverlapIntersection_call \<lparr>tolerance = 1\<rparr>
       (attributes (segment_node 0 1 1 None)) (attributes (segment_node (3 / 2) (5 / 2) 1 None))
   \<and> OverlapIntersection_call \<lparr>tolerance = 1\<rparr>
       (attributes (segment_node 0 1 1 None)) (attributes (segment_node (3 / 2) (5 / 2) 1 None))
     = OverlapIntersection_call \<lparr>tolerance = 0\<rparr>
       (attributes (segment_node 0 1 1 None)) (attributes (segment_node (3 / 2) (5 / 2) 1 None))"
  by (simp add: OverlapIntersection_call_def segment_node_def vmin_def vsub_def all_le_def all_ge_def)


subsection \<open>Parent selection\<close>

lemma find_as_filter: "find P xs = (case filter P xs of [] \<Rightarrow> None | x # _ \<Rightarrow> Some x)"
  by (induction xs) simp_all

lemma member_parents_Cons:
  "member_parents g (i # is) =
     (case parent_of g i of None \<Rightarrow> member_parents g is | Some p \<Rightarrow> p # member_parents g is)"
  by (simp add: member_parents_def List.map_filter_simps split: option.splits)

lemma collect_parents_present:
  "members_present g ns \<Longrightarrow>
   collect_parents g ns act archived =
     Inr (act @ filter (\<lambda>p. \<not> stable_parent g p) (member_parents g ns),
          archived @ filter (stable_parent g) (member_parents g ns))"
proof (induction ns arbitrary: act archived)
  case Nil
  then show ?case by (simp add: member_parents_def List.map_filter_simps)
next
  case (Cons i ns)
  from Cons.prems have rest: "members_present g ns"
    and here: "getNode g i \<noteq> None"
    and par: "case parent_of g i of None \<Rightarrow> True | Some p \<Rightarrow> getNode g p \<noteq> None"
    by (simp_all add: members_present_def)
  from here obtain node where node: "getNode g i = Some node" by blast
  show ?case
  proof (cases "parent node")
    case None
    then have "parent_of g i = None" using node by (simp add: parent_of_def)
    then show ?thesis using node None Cons.IH[OF rest] by (simp add: member_parents_Cons)
  next
    case (Some p)
    then have po: "parent_of g i = Some p" using node by (simp add: parent_of_def)
    with par obtain pn where pn: "getNode g p = Some pn" by auto
    show ?thesis using node Some po pn Cons.IH[OF rest]
      by (simp add: member_parents_Cons stable_parent_def)
  qed
qed

text \<open>
  C6. Whenever the members of a cluster and their parents are nodes of the graph, parent
  selection returns the first stable parent in the order of the member list if some
  member has a stable parent, otherwise the first volatile parent, otherwise none.
\<close>

theorem getBestParent_prefers_first_stable:
  assumes "members_present g node_ids"
  shows "getBestParent g node_ids = Inr (preferred_parent g node_ids)"
proof -
  let ?ps = "member_parents g node_ids"
  have c: "collect_parents g node_ids [] [] =
             Inr (filter (\<lambda>p. \<not> stable_parent g p) ?ps, filter (stable_parent g) ?ps)"
    using collect_parents_present[OF assms, of "[]" "[]"] by simp
  show ?thesis
    unfolding getBestParent_def preferred_parent_def c find_as_filter
    by (simp split: list.splits)
qed

text \<open>With parents volatile, stable, stable the parent of the second member is returned.\<close>

theorem getBestParent_prefers_first_stable_witness:
  "members_present parents_graph [1, 2, 3]
   \<and> member_parents parents_graph [1, 2, 3] = [10, 11, 12]
   \<and> getBestParent parents_graph [1, 2, 3] = Inr (Some (11, False))"
proof -
  have h: "members_present parents_graph [1, 2, 3]"
    by (simp add: members_present_def parents_graph_def getNode_def parent_of_def segment_node_def)
  have p: "member_parents parents_graph [1, 2, 3] = [10, 11, 12]"
    by (simp add: member_parents_def List.map_filter_simps parents_graph_def getNode_def
          parent_of_def segment_node_def)
  have "preferred_parent parents_graph [1, 2, 3] = Some (11, False)"
    unfolding preferred_parent_def p
    by (simp add: stable_parent_def parents_graph_def getNode_def place_node_def)
  with h p getBestParent_prefers_first_stable[OF h] show ?thesis by simp
qed


subsection \<open>Merged attributes\<close>

lemma vadd_commute: "vadd a b = vadd b a"
  by (simp add: vadd_def split: prod.splits)

lemma map2_add_commute: "map2 (+) xs ys = map2 (+) ys (xs :: real list)"
proof (induction xs arbitrary: ys)
  case Nil
  then show ?case by simp
next
  case (Cons x xs)
  then show ?case by (cases ys) (simp_all add: add.commute)
qed

lemma map2_rows_commute: "map2 (map2 (+)) a b = map2 (map2 (+)) b (a :: matrix)"
proof (induction a arbitrary: b)
  case Nil
  then show ?case by simp
next
  case (Cons r a)
  then show ?case by (cases b) (simp_all add: map2_add_commute)
qed

lemma mat_add_commute: "mat_add a b = mat_add b a"
  by (auto simp: mat_add_def map2_rows_commute)

lemma merge_pair_value:
  assumes "getNode g a = Some na" and "getNode g b = Some nb"
  shows "getMergedAttributes orc g [a, b] =
     (case mat_add (rowwise_mean (semantic_feature (attributes na)))
                   (rowwise_mean (semantic_feature (attributes nb))) of
        Inl e \<Rightarrow> Inl e
      | Inr f \<Rightarrow>
          (let m = mergeObjectAttributes orc (attributes nb)
                     ((attributes na)\<lparr>position := vadd (position (attributes na)) (position (attributes nb)),
                                      semantic_feature := f\<rparr>)
           in Inr (Some (m\<lparr>position := vdiv (position m) (Suc (Suc 0)),
                            semantic_feature := mat_div (semantic_feature m) (Suc (Suc 0))\<rparr>))))"
  using assms by (simp add: getMergedAttributes_def Let_def split: sum.splits)

lemma merge_pair_members:
  assumes "getMergedAttributes orc g [a, b] = Inr r"
  shows "\<exists>na nb. getNode g a = Some na \<and> getNode g b = Some nb"
  using assms by (auto simp: getMergedAttributes_def Let_def split: option.splits sum.splits)

text \<open>
  C8. Provided the auxiliary merge rule leaves position and feature of the attributes it
  merges into alone, merging the cluster \<open>[a, b]\<close> and merging the cluster \<open>[b, a]\<close>
  give the same position and the same feature: when the first merge returns attributes,
  so does the second.
\<close>

theorem merged_pair_order_independent:
  assumes keep: "\<forall>from into. position (mergeObjectAttributes orc from into) = position into
                   \<and> semantic_feature (mergeObjectAttributes orc from into) = semantic_feature into"
    and ab: "getMergedAttributes orc g [a, b] = Inr (Some x)"
  shows "\<exists>y. getMergedAttributes orc g [b, a] = Inr (Some y)
           \<and> position y = position x \<and> semantic_feature y = semantic_feature x"
proof -
  obtain na nb where na: "getNode g a = Some na" and nb: "getNode g b = Some nb"
    using merge_pair_members[OF ab] by blast
  let ?fa = "rowwise_mean (semantic_feature (attributes na))"
  let ?fb = "rowwise_mean (semantic_feature (attributes nb))"
  from ab obtain f where f: "mat_add ?fa ?fb = Inr f"
    unfolding merge_pair_value[OF na nb] by (cases "mat_add ?fa ?fb") simp_all
  then have f': "mat_add ?fb ?fa = Inr f" by (simp add: mat_add_commute)
  have px: "position x = vdiv (vadd (position (attributes na)) (position (attributes nb))) (Suc (Suc 0))"
    and fx: "semantic_feature x = mat_div f (Suc (Suc 0))"
    using ab keep unfolding merge_pair_value[OF na nb] f by (auto simp: Let_def)
  let ?m = "mergeObjectAttributes orc (attributes na)
               ((attributes nb)\<lparr>position := vadd (position (attributes nb)) (position (attributes na)),
                                semantic_feature := f\<rparr>)"
  let ?y = "?m\<lparr>position := vdiv (position ?m) (Suc (Suc 0)), semantic_feature := mat_div (semantic_feature ?m) (Suc (Suc 0))\<rparr>"
  have "getMergedAttributes orc g [b, a] = Inr (Some ?y)"
    unfolding merge_pair_value[OF nb na] f' by (simp add: Let_def)
  moreover have "position ?y = position x"
    using keep px by (simp add: vadd_commute)
  moreover have "semantic_feature ?y = semantic_feature x"
    using keep fx by simp
  ultimately show ?thesis by blast
qed

theorem merged_pair_order_independent_witness:
  "(\<forall>from into. position (mergeObjectAttributes example_oracles from into) = position into
       \<and> semantic_feature (mergeObjectAttributes example_oracles from into) = semantic_feature into)
   \<and> (\<exists>x y. getMergedAttributes example_oracles pair_graph [10, 11] = Inr (Some x)
          \<and> getMergedAttributes example_oracles pair_graph [11, 10] = Inr (Some y)
          \<and> position x = (1 / 2, 1 / 2, 1 / 2) \<and> semantic_feature x = [[2]]
          \<and> position y = position x \<and> semantic_feature y = semantic_feature x)"
proof -
  have keep: "\<forall>from into. position (mergeObjectAttributes example_oracles from into) = position into
       \<and> semantic_feature (mergeObjectAttributes example_oracles from into) = semantic_feature into"
    by (simp add: example_oracles_def)
  let ?x = "\<lparr>position = (1 / 2, 1 / 2, 1 / 2), is_active = True,
             bounding_box = \<lparr>box_min = (0, 0, 0), box_max = (2, 2, 2)\<rparr>,
             semantic_feature = [[2]], details = ()\<rparr>"
  have ab: "getMergedAttributes example_oracles pair_graph [10, 11] = Inr (Some ?x)"
    by (simp add: getMergedAttributes_def pair_graph_def getNode_def segment_node_def
          example_oracles_def rowwise_mean_def mat_add_def mat_div_def vadd_def vdiv_def)
  from merged_pair_order_independent[OF keep ab] obtain y where
    "getMergedAttributes example_oracles pair_graph [11, 10] = Inr (Some y)"
    "position y = position ?x" "semantic_feature y = semantic_feature ?x" by blast
  with keep ab show ?thesis by (intro conjI exI[of _ ?x] exI[of _ y]) simp_all
qed


subsection \<open>Anchor attachment\<close>

lemma layer_rank_le: "layer_rank l \<le> 3"
  by (cases l) simp_all

lemma attributes_insertEdge:
  "map_option attributes (getNode (insertEdge g a b) i) = map_option attributes (getNode g i)"
  using getNode_insertEdge_cases[of g a b i] by auto

lemma attach_one_facts:
  assumes step: "attach_one config finder j (g, s) = Inr (g1, s1)"
    and sound: "\<forall>pos q e. finder pos = Some (q, e) \<longrightarrow> in_layer g PLACES q"
  shows "\<forall>i. i \<noteq> j \<longrightarrow> getNode g1 i = getNode g i"
    and "\<forall>l i. in_layer g1 l i = in_layer g l i"
    and "\<forall>p. parent_of g j = Some p \<longrightarrow> g1 = g"
    and "set (active s1) \<subseteq> set (active s)"
    and "\<exists>evs. history s1 = history s @ evs \<and> list_all (\<lambda>e. phase_rank e = 0) evs"
    and "s1 = s\<lparr>active := active s1, history := history s1\<rparr>"
    and "\<forall>i. map_option attributes (getNode g1 i) = map_option attributes (getNode g i)"
proof -
  from step obtain node where node: "getNode g j = Some node"
    by (auto simp: attach_one_def split: option.splits)
  show "\<forall>i. i \<noteq> j \<longrightarrow> getNode g1 i = getNode g i"
  proof (intro allI impI)
    fix i assume ij: "i \<noteq> j"
    show "getNode g1 i = getNode g i"
    proof (cases "parent node")
      case (Some p)
      then show ?thesis using step node
        by (auto simp: attach_one_def split: option.splits if_splits)
    next
      case None
      show ?thesis
      proof (cases "finder (position (attributes node))")
        case None
        then show ?thesis using step node \<open>parent node = None\<close> by (simp add: attach_one_def)
      next
        case (Some qd)
        obtain q d where qd: "qd = (q, d)" by (cases qd)
        with Some sound have "in_layer g PLACES q" by blast
        then obtain nq where nq: "getNode g q = Some nq" "node_layer nq = PLACES"
          by (auto simp: in_layer_def split: option.splits)
        have le: "\<forall>n. getNode g j = Some n \<longrightarrow> layer_rank (node_layer n) \<le> layer_rank (node_layer nq)"
          using nq(2) by (simp add: layer_rank_le)
        have "g1 = insertEdge g q j"
          using step node \<open>parent node = None\<close> Some qd by (simp add: attach_one_def Let_def)
        then show ?thesis using getNode_insertEdge_upper[OF nq(1) le, of i] ij by simp
      qed
    qed
  qed
  show "\<forall>l i. in_layer g1 l i = in_layer g l i"
    using step node
    by (auto simp: attach_one_def Let_def in_layer_insertEdge split: option.splits if_splits)
  show "\<forall>p. parent_of g j = Some p \<longrightarrow> g1 = g"
    using step node
    by (auto simp: attach_one_def parent_of_def split: option.splits if_splits)
  show "set (active s1) \<subseteq> set (active s)"
    using step node
    by (auto simp: attach_one_def Let_def set_set_erase log_event_def split: option.splits if_splits)
  show "\<exists>evs. history s1 = history s @ evs \<and> list_all (\<lambda>e. phase_rank e = 0) evs"
    using step node
    by (auto simp: attach_one_def Let_def log_event_def split: option.splits if_splits)
  show "s1 = s\<lparr>active := active s1, history := history s1\<rparr>"
    using step node
    by (auto simp: attach_one_def Let_def log_event_def split: option.splits if_splits)
  show "\<forall>i. map_option attributes (getNode g1 i) = map_option attributes (getNode g i)"
  proof
    fix i
    have "g1 = g \<or> (\<exists>q. g1 = insertEdge g q j)"
      using step node
      by (auto simp: attach_one_def Let_def split: option.splits if_splits)
    then show "map_option attributes (getNode g1 i) = map_option attributes (getNode g i)"
      by (auto simp: attributes_insertEdge)
  qed
qed

lemma attach_one_parent_kept:
  assumes "attach_one config finder j (g, s) = Inr (g1, s1)"
    and "\<forall>pos q e. finder pos = Some (q, e) \<longrightarrow> in_layer g PLACES q"
    and "parent_of g i = Some p"
  shows "parent_of g1 i = Some p"
proof (cases "i = j")
  case True
  then show ?thesis using attach_one_facts(3)[OF assms(1,2)] assms(3) by simp
next
  case False
  then show ?thesis using attach_one_facts(1)[OF assms(1,2)] assms(3) by (simp add: parent_of_def)
qed

lemma attach_active_facts:
  assumes "attach_active config finder is (g, s) = Inr (g', s')"
    and "\<forall>pos q e. finder pos = Some (q, e) \<longrightarrow> in_layer g PLACES q"
  shows "(\<forall>l i. in_layer g' l i = in_layer g l i)
       \<and> (\<forall>i p. parent_of g i = Some p \<longrightarrow> parent_of g' i = Some p)
       \<and> set (active s') \<subseteq> set (active s)
       \<and> (\<exists>evs. history s' = history s @ evs \<and> list_all (\<lambda>e. phase_rank e = 0) evs)
       \<and> s' = s\<lparr>active := active s', history := history s'\<rparr>
       \<and> (\<forall>i. map_option attributes (getNode g' i) = map_option attributes (getNode g i))"
  using assms
proof (induction "is" arbitrary: g s)
  case Nil
  then show ?case by simp
next
  case (Cons j js)
  from Cons.prems(1) obtain g1 s1 where
    one: "attach_one config finder j (g, s) = Inr (g1, s1)"
    and rest: "attach_active config finder js (g1, s1) = Inr (g', s')"
    by (auto split: sum.splits)
  note f = attach_one_facts[OF one Cons.prems(2)]
  have sound1: "\<forall>pos q e. finder pos = Some (q, e) \<longrightarrow> in_layer g1 PLACES q"
    using Cons.prems(2) f(2) by simp
  note ih = Cons.IH[OF rest sound1]
  have a: "\<forall>l i. in_layer g' l i = in_layer g l i" using ih f(2) by simp
  have b: "\<forall>i p. parent_of g i = Some p \<longrightarrow> parent_of g' i = Some p"
    using ih attach_one_parent_kept[OF one Cons.prems(2)] by blast
  have c: "set (active s') \<subseteq> set (active s)" using ih f(4) by blast
  have d: "\<exists>evs. history s' = history s @ evs \<and> list_all (\<lambda>e. phase_rank e = 0) evs"
  proof -
    from f(5) obtain e1 where e1: "history s1 = history s @ e1" "list_all (\<lambda>e. phase_rank e = 0) e1"
      by blast
    from ih obtain e2 where e2: "history s' = history s1 @ e2" "list_all (\<lambda>e. phase_rank e = 0) e2"
      by blast
    have "history s' = history s @ (e1 @ e2)" using e1 e2 by simp
    moreover have "list_all (\<lambda>e. phase_rank e = 0) (e1 @ e2)" using e1 e2 by simp
    ultimately show ?thesis by blast
  qed
  have e: "s' = s\<lparr>active := active s', history := history s'\<rparr>"
  proof -
    have "s' = s1\<lparr>active := active s', history := history s'\<rparr>" using ih by blast
    also have "s1 = s\<lparr>active := active s1, history := history s1\<rparr>" by (rule f(6))
    finally show ?thesis by simp
  qed
  have g: "\<forall>i. map_option attributes (getNode g' i) = map_option attributes (getNode g i)"
    using ih f(7) by simp
  from a b c d e g show ?case by blast
qed

lemma attach_active_attaches:
  assumes "attach_active config finder is (g, s) = Inr (g', s')"
    and "\<forall>pos q e. finder pos = Some (q, e) \<longrightarrow> in_layer g PLACES q"
    and "i \<in> set is"
    and "getNode g i = Some node" and "node_layer node = OBJECTS" and "parent node = None"
    and "finder (position (attributes node)) = Some (p, d)"
  shows "parent_of g' i = Some p \<and> i \<notin> set (active s') \<and> Attach p i \<in> set (history s')
       \<and> (0 < neighbor_max_distance config \<and> neighbor_max_distance config \<le> d
            \<longrightarrow> DiscardingNearestNeighbor p i \<in> set (history s'))"
  using assms
proof (induction "is" arbitrary: g s)
  case Nil
  then show ?case by simp
next
  case (Cons j js)
  from Cons.prems(1) obtain g1 s1 where
    one: "attach_one config finder j (g, s) = Inr (g1, s1)"
    and rest: "attach_active config finder js (g1, s1) = Inr (g', s')"
    by (auto split: sum.splits)
  note f = attach_one_facts[OF one Cons.prems(2)]
  have sound1: "\<forall>pos q e. finder pos = Some (q, e) \<longrightarrow> in_layer g1 PLACES q"
    using Cons.prems(2) f(2) by simp
  show ?case
  proof (cases "j = i")
    case True
    from Cons.prems(2,7) have "in_layer g PLACES p" by blast
    then obtain np where np: "getNode g p = Some np" "node_layer np = PLACES"
      by (auto simp: in_layer_def split: option.splits)
    have lt: "layer_rank (node_layer node) < layer_rank (node_layer np)"
      using np(2) Cons.prems(5) by simp
    have g1: "g1 = insertEdge g p i"
      and s1: "s1 = (log_event (Attach p i)
                 (if 0 < neighbor_max_distance config \<and> neighbor_max_distance config \<le> d
                  then log_event (DiscardingNearestNeighbor p i) s else s))
               \<lparr>active := set_erase i (active s)\<rparr>"
      using one True Cons.prems(4,6,7) by (auto simp: attach_one_def Let_def log_event_def)
    have par: "parent_of g1 i = Some p"
      unfolding g1 parent_of_def getNode_insertEdge_parent(1)[OF np(1) Cons.prems(4) lt] by simp
    have act: "i \<notin> set (active s1)" unfolding s1 by (simp add: set_set_erase)
    have ev: "Attach p i \<in> set (history s1)" unfolding s1 by (simp add: log_event_def)
    have warn: "0 < neighbor_max_distance config \<and> neighbor_max_distance config \<le> d
            \<longrightarrow> DiscardingNearestNeighbor p i \<in> set (history s1)"
      unfolding s1 by (simp add: log_event_def)
    note r = attach_active_facts[OF rest sound1]
    from r obtain evs where evs: "history s' = history s1 @ evs" by blast
    have "parent_of g' i = Some p" using r par by blast
    moreover have "i \<notin> set (active s')" using r act by blast
    moreover have "Attach p i \<in> set (history s')" using ev evs by simp
    moreover have "0 < neighbor_max_distance config \<and> neighbor_max_distance config \<le> d
            \<longrightarrow> DiscardingNearestNeighbor p i \<in> set (history s')"
      using warn evs by simp
    ultimately show ?thesis by blast
  next
    case False
    then have mem: "i \<in> set js" using Cons.prems(3) by simp
    have node1: "getNode g1 i = Some node" using f(1) False Cons.prems(4) by simp
    show ?thesis
      by (rule Cons.IH[OF rest sound1 mem node1 Cons.prems(5) Cons.prems(6) Cons.prems(7)])
  qed
qed

text \<open>
  C4. An object node without parent for which the nearest-neighbour query finds a place
  is linked to that place and is not in the Active Set when \<^verbatim>\<open>updateActiveParents\<close>
  returns, whatever the distance and whatever the configured maximum distance: beyond
  that maximum the warning is logged and the object is attached all the same.
\<close>

theorem attachment_ignores_distance_cap:
  assumes "updateActiveParents config orc g s = Inr (g', s')"
    and "\<forall>pos q e. find_nearest orc g (layer_ids g PLACES) pos = Some (q, e) \<longrightarrow> in_layer g PLACES q"
    and "getNode g i = Some node" and "node_layer node = OBJECTS" and "parent node = None"
    and "find_nearest orc g (layer_ids g PLACES) (position (attributes node)) = Some (p, d)"
  shows "parent_of g' i = Some p \<and> i \<notin> set (active s') \<and> Attach p i \<in> set (history s')
       \<and> (0 < neighbor_max_distance config \<and> neighbor_max_distance config \<le> d
            \<longrightarrow> DiscardingNearestNeighbor p i \<in> set (history s'))"
proof -
  let ?s1 = "s\<lparr>active := fold set_insert (layer_ids g OBJECTS) (active s)\<rparr>"
  have run: "attach_active config (find_nearest orc g (layer_ids g PLACES)) (active ?s1) (g, ?s1)
               = Inr (g', s')"
    using assms(1) by (simp add: updateActiveParents_def Let_def)
  have "in_layer g OBJECTS i" using assms(3,4) by (simp add: in_layer_def)
  then have mem: "i \<in> set (active ?s1)"
    by (simp add: set_fold_set_insert set_layer_ids)
  show ?thesis
    by (rule attach_active_attaches[OF run assms(2) mem assms(3) assms(4) assms(5) assms(6)])
qed

theorem attachment_ignores_distance_cap_witness:
  "0 < neighbor_max_distance example_config \<and> neighbor_max_distance example_config \<le> 5
   \<and> (\<exists>g' s'. updateActiveParents example_config example_oracles attach_graph
                   (ObjectUpdateFunctor_init example_config) = Inr (g', s')
          \<and> parent_of g' 50 = Some 100 \<and> 50 \<notin> set (active s')
          \<and> history s' = [DiscardingNearestNeighbor 100 50, Attach 100 50])"
proof -
  let ?g' = "\<lparr>nodes = [(100, place_node True), (50, object_node (Some 100))], edges = []\<rparr>"
  let ?s' = "(ObjectUpdateFunctor_init example_config)
               \<lparr>active := [], history := [DiscardingNearestNeighbor 100 50, Attach 100 50]\<rparr>"
  have ids: "layer_ids attach_graph PLACES = [100]" "layer_ids attach_graph OBJECTS = [50]"
    by (simp_all add: layer_ids_def in_layer_def getNode_def attach_graph_def place_node_def
          object_node_def)
  have run: "updateActiveParents example_config example_oracles attach_graph
               (ObjectUpdateFunctor_init example_config) = Inr (?g', ?s')"
    unfolding updateActiveParents_def ids
    by (simp add: attach_one_def ObjectUpdateFunctor_init_def set_insert_def set_erase_def
          getNode_def attach_graph_def object_node_def place_node_def example_oracles_def
          example_config_def insertEdge_def set_node_def log_event_def)
  have sound: "\<forall>pos q e. find_nearest example_oracles attach_graph (layer_ids attach_graph PLACES) pos
                 = Some (q, e) \<longrightarrow> in_layer attach_graph PLACES q"
    unfolding ids
    by (simp add: example_oracles_def in_layer_def getNode_def attach_graph_def place_node_def)
  have node: "getNode attach_graph 50 = Some (object_node None)"
    by (simp add: getNode_def attach_graph_def)
  have lay: "node_layer (object_node None) = OBJECTS" and par: "parent (object_node None) = None"
    by (simp_all add: object_node_def)
  have near: "find_nearest example_oracles attach_graph (layer_ids attach_graph PLACES)
                (position (attributes (object_node None))) = Some (100, 5)"
    unfolding ids by (simp add: example_oracles_def)
  have cap: "0 < neighbor_max_distance example_config \<and> neighbor_max_distance example_config \<le> 5"
    by (simp add: example_config_def)
  from attachment_ignores_distance_cap[OF run sound node lay par near]
  have "parent_of ?g' 50 = Some 100 \<and> 50 \<notin> set (active ?s')" by blast
  moreover have "history ?s' = [DiscardingNearestNeighbor 100 50, Attach 100 50]" by simp
  ultimately show ?thesis using run cap by blast
qed

subsection \<open>Segment edges\<close>

lemma nodes_kept_refl: "nodes_kept g g"
  by (simp add: nodes_kept_def node_kept_def option.rel_refl)

lemma nodes_kept_trans: "nodes_kept g g1 \<Longrightarrow> nodes_kept g1 g2 \<Longrightarrow> nodes_kept g g2"
  unfolding nodes_kept_def
proof
  fix i
  assume a: "\<forall>i. rel_option node_kept (getNode g i) (getNode g1 i)"
    and b: "\<forall>i. rel_option node_kept (getNode g1 i) (getNode g2 i)"
  from a have "rel_option node_kept (getNode g i) (getNode g1 i)" by blast
  moreover from b have "rel_option node_kept (getNode g1 i) (getNode g2 i)" by blast
  ultimately show "rel_option node_kept (getNode g i) (getNode g2 i)"
    by (cases "getNode g i"; cases "getNode g1 i"; cases "getNode g2 i") (auto simp: node_kept_def)
qed

lemma nodes_kept_insertEdge: "nodes_kept g (insertEdge g a b)"
  unfolding nodes_kept_def
proof
  fix i
  show "rel_option node_kept (getNode g i) (getNode (insertEdge g a b) i)"
    using getNode_insertEdge_cases[of g a b i]
    by (cases "getNode g i") (auto simp: node_kept_def)
qed

lemma nodes_kept_in_layer: "nodes_kept g g' \<Longrightarrow> in_layer g' l i = in_layer g l i"
proof -
  assume "nodes_kept g g'"
  then have "rel_option node_kept (getNode g i) (getNode g' i)" by (simp add: nodes_kept_def)
  then show ?thesis
    by (cases "getNode g i"; cases "getNode g' i") (auto simp: in_layer_def node_kept_def)
qed

lemma check_other_facts:
  assumes "check_other config node_id attrs other_id (ac, g, s) = (ac', g', s')"
  shows "nodes_kept g g'"
    and "components s' = components s \<and> node_to_component s' = node_to_component s
       \<and> ignored s' = ignored s \<and> active s' = active s \<and> next_node_id s' = next_node_id s
       \<and> components_ids s' = components_ids s"
    and "\<exists>evs. history s' = history s @ evs \<and> list_all (\<lambda>e. \<exists>b. e = SegmentEdge node_id b) evs"
  using assms
  by (auto simp: check_other_def log_event_def nodes_kept_refl nodes_kept_insertEdge
           split: if_splits option.splits)

lemma check_others_facts:
  assumes "fold (check_other config node_id attrs) ids (ac, g, s) = (ac', g', s')"
  shows "nodes_kept g g'
       \<and> (components s' = components s \<and> node_to_component s' = node_to_component s
          \<and> ignored s' = ignored s \<and> active s' = active s \<and> next_node_id s' = next_node_id s
          \<and> components_ids s' = components_ids s)
       \<and> (\<exists>evs. history s' = history s @ evs \<and> list_all (\<lambda>e. \<exists>b. e = SegmentEdge node_id b) evs)"
  using assms
proof (induction ids arbitrary: ac g s)
  case Nil
  then show ?case by (simp add: nodes_kept_refl)
next
  case (Cons j js)
  obtain ac1 g1 s1 where one: "check_other config node_id attrs j (ac, g, s) = (ac1, g1, s1)"
    by (cases "check_other config node_id attrs j (ac, g, s)") auto
  with Cons.prems have rest: "fold (check_other config node_id attrs) js (ac1, g1, s1) = (ac', g', s')"
    by simp
  note f = check_other_facts[OF one]
  note ih = Cons.IH[OF rest]
  have a: "nodes_kept g g'" using f(1) ih nodes_kept_trans by blast
  have b: "components s' = components s \<and> node_to_component s' = node_to_component s
          \<and> ignored s' = ignored s \<and> active s' = active s \<and> next_node_id s' = next_node_id s
          \<and> components_ids s' = components_ids s"
    using f(2) ih by simp
  from f(3) obtain e1 where e1: "history s1 = history s @ e1"
    "list_all (\<lambda>e. \<exists>b. e = SegmentEdge node_id b) e1" by blast
  from ih obtain e2 where e2: "history s' = history s1 @ e2"
    "list_all (\<lambda>e. \<exists>b. e = SegmentEdge node_id b) e2" by blast
  have "history s' = history s @ (e1 @ e2)" using e1 e2 by simp
  moreover have "list_all (\<lambda>e. \<exists>b. e = SegmentEdge node_id b) (e1 @ e2)" using e1 e2 by simp
  ultimately show ?case using a b by blast
qed

lemma nodes_kept_deactivate:
  assumes "getNode g j = Some node"
  shows "nodes_kept g (set_node j (node\<lparr>attributes := (attributes node)\<lparr>is_active := False\<rparr>\<rparr>) g)"
  unfolding nodes_kept_def
proof
  fix i
  show "rel_option node_kept (getNode g i)
          (getNode (set_node j (node\<lparr>attributes := (attributes node)\<lparr>is_active := False\<rparr>\<rparr>) g) i)"
    using assms by (cases "getNode g i") (auto simp: getNode_set_node node_kept_def)
qed

lemma examine_segment_cases:
  assumes "examine_segment config orc ids j (ac, g, s) = (ac', g', s')"
  obtains (skip) "ac' = ac" "g' = g" "s' = s"
  | (ignore) node where "getNode g j = Some node" "j \<notin> ignored s" "node_to_component s j = None"
      "getBestScore orc (rowwise_mean (semantic_feature (attributes node))) < min_segment_score config"
      "ac' = ac" "g' = set_node j (node\<lparr>attributes := (attributes node)\<lparr>is_active := False\<rparr>\<rparr>) g"
      "s' = s\<lparr>ignored := insert j (ignored s)\<rparr>"
  | (edges) node where "getNode g j = Some node" "j \<notin> ignored s" "node_to_component s j = None"
      "fold (check_other config j (attributes node)) ids (ac, g, s) = (ac', g', s')"
proof (cases "getNode g j")
  case None
  then have "(ac', g', s') = (ac, g, s)" using assms by (simp add: examine_segment_def)
  then show ?thesis using skip by simp
next
  case (Some node)
  show ?thesis
  proof (cases "j \<in> ignored s \<or> node_to_component s j \<noteq> None")
    case True
    then have "(ac', g', s') = (ac, g, s)" using assms Some
      by (cases "j \<in> ignored s") (simp_all add: examine_segment_def Let_def)
    then show ?thesis using skip by simp
  next
    case False
    then have a: "j \<notin> ignored s" and b: "node_to_component s j = None" by simp_all
    show ?thesis
    proof (cases "getBestScore orc (rowwise_mean (semantic_feature (attributes node))) < min_segment_score config")
      case True
      have "(ac', g', s') = (ac, set_node j (node\<lparr>attributes := (attributes node)\<lparr>is_active := False\<rparr>\<rparr>) g,
               s\<lparr>ignored := insert j (ignored s)\<rparr>)"
        using assms Some a b True by (simp add: examine_segment_def Let_def)
      then show ?thesis using ignore[OF Some a b True] by simp
    next
      case False
      have "fold (check_other config j (attributes node)) ids (ac, g, s) = (ac', g', s')"
        using assms Some a b False by (simp add: examine_segment_def Let_def)
      then show ?thesis using edges[OF Some a b] by simp
    qed
  qed
qed

lemma examine_segment_facts:
  assumes "examine_segment config orc ids j (ac, g, s) = (ac', g', s')"
  shows "nodes_kept g g'
      \<and> (components s' = components s \<and> node_to_component s' = node_to_component s
          \<and> active s' = active s \<and> next_node_id s' = next_node_id s
          \<and> components_ids s' = components_ids s)
      \<and> ignored s \<subseteq> ignored s'
      \<and> ignored s' \<subseteq> ignored s \<union> {i. i = j \<and> node_to_component s i = None}
      \<and> (\<exists>evs. history s' = history s @ evs
           \<and> list_all (\<lambda>e. \<exists>a b. e = SegmentEdge a b \<and> a \<notin> ignored s) evs)"
  using assms
proof (cases rule: examine_segment_cases)
  case skip
  then show ?thesis by (simp add: nodes_kept_refl)
next
  case (ignore node)
  have k: "nodes_kept g g'" unfolding ignore(6) by (rule nodes_kept_deactivate[OF ignore(1)])
  have "history s' = history s @ []" unfolding ignore(7) by simp
  then have h: "\<exists>evs. history s' = history s @ evs
           \<and> list_all (\<lambda>e. \<exists>a b. e = SegmentEdge a b \<and> a \<notin> ignored s) evs"
    by (intro exI[of _ "[]"]) simp
  have fr: "components s' = components s \<and> node_to_component s' = node_to_component s
          \<and> active s' = active s \<and> next_node_id s' = next_node_id s
          \<and> components_ids s' = components_ids s" unfolding ignore(7) by simp
  have i1: "ignored s \<subseteq> ignored s'" unfolding ignore(7) by auto
  have i2: "ignored s' \<subseteq> ignored s \<union> {i. i = j \<and> node_to_component s i = None}"
    unfolding ignore(7) using ignore(3) by auto
  from k fr i1 i2 h show ?thesis by blast
next
  case (edges node)
  note f = check_others_facts[OF edges(4)]
  from f have ig: "ignored s' = ignored s" by blast
  from f have fr: "components s' = components s \<and> node_to_component s' = node_to_component s
          \<and> active s' = active s \<and> next_node_id s' = next_node_id s
          \<and> components_ids s' = components_ids s" by blast
  from f obtain evs where evs: "history s' = history s @ evs"
    "list_all (\<lambda>e. \<exists>b. e = SegmentEdge j b) evs" by blast
  have "list_all (\<lambda>e. \<exists>a b. e = SegmentEdge a b \<and> a \<notin> ignored s) evs"
    using evs(2) edges(2) by (auto simp: list_all_iff)
  with evs(1) have h: "\<exists>evs. history s' = history s @ evs
           \<and> list_all (\<lambda>e. \<exists>a b. e = SegmentEdge a b \<and> a \<notin> ignored s) evs" by blast
  from f have k: "nodes_kept g g'" by blast
  have i1: "ignored s \<subseteq> ignored s'" and i2: "ignored s' \<subseteq> ignored s \<union> {i. i = j \<and> node_to_component s i = None}"
    using ig by auto
  from k fr i1 i2 h show ?thesis by blast
qed

lemma examine_segments_facts:
  assumes "fold (examine_segment config orc ids) xs (ac, g, s) = (ac', g', s')"
  shows "nodes_kept g g'
      \<and> (components s' = components s \<and> node_to_component s' = node_to_component s
          \<and> active s' = active s \<and> next_node_id s' = next_node_id s
          \<and> components_ids s' = components_ids s)
      \<and> ignored s \<subseteq> ignored s'
      \<and> ignored s' \<subseteq> ignored s \<union> {i. i \<in> set xs \<and> node_to_component s i = None}
      \<and> (\<exists>evs. history s' = history s @ evs
           \<and> list_all (\<lambda>e. \<exists>a b. e = SegmentEdge a b \<and> a \<notin> ignored s) evs)"
  using assms
proof (induction xs arbitrary: ac g s)
  case Nil
  then show ?case by (simp add: nodes_kept_refl)
next
  case (Cons j js)
  obtain ac1 g1 s1 where one: "examine_segment config orc ids j (ac, g, s) = (ac1, g1, s1)"
    by (cases "examine_segment config orc ids j (ac, g, s)") auto
  with Cons.prems have rest: "fold (examine_segment config orc ids) js (ac1, g1, s1) = (ac', g', s')"
    by simp
  note f = examine_segment_facts[OF one]
  note ih = Cons.IH[OF rest]
  have a: "nodes_kept g g'" using f ih nodes_kept_trans by blast
  have b: "components s' = components s \<and> node_to_component s' = node_to_component s
          \<and> active s' = active s \<and> next_node_id s' = next_node_id s
          \<and> components_ids s' = components_ids s"
    using f ih by simp
  have n1: "node_to_component s1 = node_to_component s" using f by simp
  have c: "ignored s \<subseteq> ignored s'" using f ih by blast
  have d: "ignored s' \<subseteq> ignored s \<union> {i. i \<in> set (j # js) \<and> node_to_component s i = None}"
  proof
    fix x assume "x \<in> ignored s'"
    with ih have "x \<in> ignored s1 \<or> (x \<in> set js \<and> node_to_component s1 x = None)" by blast
    moreover from f have "ignored s1 \<subseteq> ignored s \<union> {i. i = j \<and> node_to_component s i = None}"
      by blast
    ultimately show "x \<in> ignored s \<union> {i. i \<in> set (j # js) \<and> node_to_component s i = None}"
      using n1 by auto
  qed
  from f obtain e1 where e1: "history s1 = history s @ e1"
    "list_all (\<lambda>e. \<exists>a b. e = SegmentEdge a b \<and> a \<notin> ignored s) e1" by blast
  from ih obtain e2 where e2: "history s' = history s1 @ e2"
    "list_all (\<lambda>e. \<exists>a b. e = SegmentEdge a b \<and> a \<notin> ignored s1) e2" by blast
  have sub: "ignored s \<subseteq> ignored s1" using f by blast
  have e2': "list_all (\<lambda>e. \<exists>a b. e = SegmentEdge a b \<and> a \<notin> ignored s) e2"
    using e2(2) sub unfolding list_all_iff by blast
  have "history s' = history s @ (e1 @ e2)" using e1 e2 by simp
  moreover have "list_all (\<lambda>e. \<exists>a b. e = SegmentEdge a b \<and> a \<notin> ignored s) (e1 @ e2)"
    using e1 e2' by simp
  ultimately have e: "\<exists>evs. history s' = history s @ evs
           \<and> list_all (\<lambda>e. \<exists>a b. e = SegmentEdge a b \<and> a \<notin> ignored s) evs" by blast
  from a b c d e show ?case by blast
qed

lemma nodes_kept_inactive:
  assumes "nodes_kept g g'" and "getNode g i = Some n" and "\<not> is_active (attributes n)"
  shows "\<exists>n'. getNode g' i = Some n' \<and> \<not> is_active (attributes n')"
proof -
  from assms(1) have "rel_option node_kept (getNode g i) (getNode g' i)" by (simp add: nodes_kept_def)
  with assms(2,3) show ?thesis by (cases "getNode g' i") (auto simp: node_kept_def)
qed

lemma nodes_kept_feature:
  assumes "nodes_kept g g'" and "getNode g i = Some n"
  shows "\<exists>n'. getNode g' i = Some n' \<and> semantic_feature (attributes n') = semantic_feature (attributes n)"
proof -
  from assms(1) have "rel_option node_kept (getNode g i) (getNode g' i)" by (simp add: nodes_kept_def)
  with assms(2) show ?thesis by (cases "getNode g' i") (auto simp: node_kept_def)
qed

lemma examine_segments_marks:
  assumes "fold (examine_segment config orc ids) xs (ac, g, s) = (ac', g', s')"
    and "i \<in> set xs" and "getNode g i = Some n" and "i \<notin> ignored s"
    and "node_to_component s i = None"
    and "getBestScore orc (rowwise_mean (semantic_feature (attributes n))) < min_segment_score config"
  shows "i \<in> ignored s' \<and> (\<exists>n'. getNode g' i = Some n' \<and> \<not> is_active (attributes n'))"
  using assms
proof (induction xs arbitrary: ac g s n)
  case Nil
  then show ?case by simp
next
  case (Cons j js)
  obtain ac1 g1 s1 where one: "examine_segment config orc ids j (ac, g, s) = (ac1, g1, s1)"
    by (cases "examine_segment config orc ids j (ac, g, s)") auto
  with Cons.prems(1) have rest: "fold (examine_segment config orc ids) js (ac1, g1, s1) = (ac', g', s')"
    by simp
  note f = examine_segment_facts[OF one]
  note r = examine_segments_facts[OF rest]
  show ?case
  proof (cases "j = i")
    case True
    have "examine_segment config orc ids j (ac, g, s) =
            (ac, set_node i (n\<lparr>attributes := (attributes n)\<lparr>is_active := False\<rparr>\<rparr>) g,
             s\<lparr>ignored := insert i (ignored s)\<rparr>)"
      using True Cons.prems(3,4,5,6) by (simp add: examine_segment_def Let_def)
    with one have g1: "g1 = set_node i (n\<lparr>attributes := (attributes n)\<lparr>is_active := False\<rparr>\<rparr>) g"
      and s1: "s1 = s\<lparr>ignored := insert i (ignored s)\<rparr>" by simp_all
    have "i \<in> ignored s1" unfolding s1 by simp
    then have a: "i \<in> ignored s'" using r by blast
    have "getNode g1 i = Some (n\<lparr>attributes := (attributes n)\<lparr>is_active := False\<rparr>\<rparr>)"
      unfolding g1 using Cons.prems(3) by (simp add: getNode_set_node)
    moreover have "\<not> is_active (attributes (n\<lparr>attributes := (attributes n)\<lparr>is_active := False\<rparr>\<rparr>))"
      by simp
    moreover have "nodes_kept g1 g'" using r by blast
    ultimately have "\<exists>n'. getNode g' i = Some n' \<and> \<not> is_active (attributes n')"
      by (rule nodes_kept_inactive[rotated])
    with a show ?thesis by blast
  next
    case False
    then have mem: "i \<in> set js" using Cons.prems(2) by simp
    have "nodes_kept g g1" using f by blast
    from nodes_kept_feature[OF this Cons.prems(3)] obtain n1 where
      n1: "getNode g1 i = Some n1" "semantic_feature (attributes n1) = semantic_feature (attributes n)"
      by blast
    have ig: "i \<notin> ignored s1" using f False Cons.prems(4) by blast
    have nc: "node_to_component s1 i = None" using f Cons.prems(5) by simp
    have sc: "getBestScore orc (rowwise_mean (semantic_feature (attributes n1))) < min_segment_score config"
      using n1(2) Cons.prems(6) by simp
    show ?thesis by (rule Cons.IH[OF rest mem n1(1) ig nc sc])
  qed
qed

lemma OverlapIntersection_boxes:
  "bounding_box a' = bounding_box a \<Longrightarrow> bounding_box b' = bounding_box b \<Longrightarrow>
   OverlapIntersection_call cfg a' b' = OverlapIntersection_call cfg a b"
  by (simp add: OverlapIntersection_call_def)

lemma nodes_kept_node:
  assumes "nodes_kept g g'" and "getNode g i = Some n"
  shows "\<exists>n'. getNode g' i = Some n' \<and> node_kept n n'"
proof -
  from assms(1) have "rel_option node_kept (getNode g i) (getNode g' i)" by (simp add: nodes_kept_def)
  with assms(2) show ?thesis by (cases "getNode g' i") auto
qed

lemma check_others_edge:
  assumes "fold (check_other config j attrs) ids (ac, g, s) = (ac', g', s')"
    and "i \<in> set ids" and "i \<noteq> j" and "getNode g i = Some ni"
    and "OverlapIntersection_call (edge_checker config) attrs (attributes ni)"
  shows "\<exists>evs. history s' = history s @ evs \<and> SegmentEdge j i \<in> set evs"
  using assms
proof (induction ids arbitrary: ac g s ni)
  case Nil
  then show ?case by simp
next
  case (Cons k ks)
  obtain ac1 g1 s1 where one: "check_other config j attrs k (ac, g, s) = (ac1, g1, s1)"
    by (cases "check_other config j attrs k (ac, g, s)") auto
  with Cons.prems(1) have rest: "fold (check_other config j attrs) ks (ac1, g1, s1) = (ac', g', s')"
    by simp
  note f = check_other_facts[OF one]
  note r = check_others_facts[OF rest]
  show ?case
  proof (cases "k = i")
    case True
    have h1: "history s1 = history s @ [SegmentEdge j i]"
      using one True Cons.prems(3,4,5) by (auto simp: check_other_def log_event_def)
    from r obtain e2 where "history s' = history s1 @ e2" by blast
    with h1 have "history s' = history s @ (SegmentEdge j i # e2)" by simp
    then show ?thesis by (intro exI[of _ "SegmentEdge j i # e2"]) simp
  next
    case False
    then have mem: "i \<in> set ks" using Cons.prems(2) by simp
    from nodes_kept_node[OF f(1) Cons.prems(4)] obtain n1 where
      n1: "getNode g1 i = Some n1" "node_kept ni n1" by blast
    have "OverlapIntersection_call (edge_checker config) attrs (attributes n1)
            = OverlapIntersection_call (edge_checker config) attrs (attributes ni)"
      by (rule OverlapIntersection_boxes) (use n1(2) in \<open>simp_all add: node_kept_def\<close>)
    with Cons.prems(5) have ov: "OverlapIntersection_call (edge_checker config) attrs (attributes n1)"
      by simp
    from Cons.IH[OF rest mem Cons.prems(3) n1(1) ov] obtain e2 where
      e2: "history s' = history s1 @ e2" "SegmentEdge j i \<in> set e2" by blast
    from f(3) obtain e1 where "history s1 = history s @ e1" by blast
    with e2 have "history s' = history s @ (e1 @ e2) \<and> SegmentEdge j i \<in> set (e1 @ e2)" by simp
    then show ?thesis by blast
  qed
qed

lemma examine_segments_edge:
  assumes "fold (examine_segment config orc ids) xs (ac, g, s) = (ac', g', s')"
    and "j \<in> set xs" and "i \<in> set ids" and "i \<noteq> j"
    and "getNode g j = Some nj" and "getNode g i = Some ni"
    and "j \<notin> ignored s" and "node_to_component s j = None"
    and "\<not> getBestScore orc (rowwise_mean (semantic_feature (attributes nj))) < min_segment_score config"
    and "OverlapIntersection_call (edge_checker config) (attributes nj) (attributes ni)"
  shows "\<exists>evs. history s' = history s @ evs \<and> SegmentEdge j i \<in> set evs"
  using assms
proof (induction xs arbitrary: ac g s nj ni)
  case Nil
  then show ?case by simp
next
  case (Cons k ks)
  obtain ac1 g1 s1 where one: "examine_segment config orc ids k (ac, g, s) = (ac1, g1, s1)"
    by (cases "examine_segment config orc ids k (ac, g, s)") auto
  with Cons.prems(1) have rest: "fold (examine_segment config orc ids) ks (ac1, g1, s1) = (ac', g', s')"
    by simp
  note f = examine_segment_facts[OF one]
  note r = examine_segments_facts[OF rest]
  show ?case
  proof (cases "k = j")
    case True
    have run: "fold (check_other config j (attributes nj)) ids (ac, g, s) = (ac1, g1, s1)"
      using one True Cons.prems(5,7,8,9) by (simp add: examine_segment_def Let_def)
    from check_others_edge[OF run Cons.prems(3) Cons.prems(4) Cons.prems(6) Cons.prems(10)]
    obtain e1 where e1: "history s1 = history s @ e1" "SegmentEdge j i \<in> set e1" by blast
    from r obtain e2 where "history s' = history s1 @ e2" by blast
    with e1 have "history s' = history s @ (e1 @ e2) \<and> SegmentEdge j i \<in> set (e1 @ e2)" by simp
    then show ?thesis by blast
  next
    case False
    then have mem: "j \<in> set ks" using Cons.prems(2) by simp
    have k: "nodes_kept g g1" using f by blast
    from nodes_kept_node[OF k Cons.prems(5)] obtain n1j where
      n1j: "getNode g1 j = Some n1j" "node_kept nj n1j" by blast
    from nodes_kept_node[OF k Cons.prems(6)] obtain n1i where
      n1i: "getNode g1 i = Some n1i" "node_kept ni n1i" by blast
    have ig: "j \<notin> ignored s1" using f False Cons.prems(7) by blast
    have nc: "node_to_component s1 j = None" using f Cons.prems(8) by simp
    have sc: "\<not> getBestScore orc (rowwise_mean (semantic_feature (attributes n1j)))
                 < min_segment_score config"
      using n1j(2) Cons.prems(9) by (simp add: node_kept_def)
    have "OverlapIntersection_call (edge_checker config) (attributes n1j) (attributes n1i)
            = OverlapIntersection_call (edge_checker config) (attributes nj) (attributes ni)"
      by (rule OverlapIntersection_boxes) (use n1j(2) n1i(2) in \<open>simp_all add: node_kept_def\<close>)
    with Cons.prems(10) have ov:
      "OverlapIntersection_call (edge_checker config) (attributes n1j) (attributes n1i)" by simp
    from Cons.IH[OF rest mem Cons.prems(3) Cons.prems(4) n1j(1) n1i(1) ig nc sc ov] obtain e2 where
      e2: "history s' = history s1 @ e2" "SegmentEdge j i \<in> set e2" by blast
    from f obtain e1 where "history s1 = history s @ e1" by blast
    with e2 have "history s' = history s @ (e1 @ e2) \<and> SegmentEdge j i \<in> set (e1 @ e2)" by simp
    then show ?thesis by blast
  qed
qed

subsection \<open>Component retirement\<close>

lemma getNode_None_iff: "getNode g i = None \<longleftrightarrow> (\<forall>l. \<not> in_layer g l i)"
  by (cases "getNode g i") (auto simp: in_layer_def)

lemma fold_erase_keys: "fold (\<lambda>i m. m(i := None)) xs m i = (if i \<in> set xs then None else m i)"
  by (induction xs arbitrary: m) auto

lemma remove_objects_facts:
  assumes "fold (\<lambda>i (g, s). (removeNode g i,
                    log_event (RemoveObject i) (s\<lparr>active := set_erase i (active s)\<rparr>)))
             objs (g, s) = (g', s')"
  shows "(\<forall>l i. in_layer g' l i = (i \<notin> set objs \<and> in_layer g l i))
       \<and> set (active s') = set (active s) - set objs
       \<and> (components s' = components s \<and> node_to_component s' = node_to_component s
          \<and> ignored s' = ignored s \<and> next_node_id s' = next_node_id s
          \<and> components_ids s' = components_ids s)
       \<and> (\<exists>evs. history s' = history s @ evs \<and> list_all (\<lambda>e. phase_rank e = 2) evs)"
  using assms
proof (induction objs arbitrary: g s)
  case Nil
  then show ?case by simp
next
  case (Cons j js)
  let ?g1 = "removeNode g j"
  let ?s1 = "log_event (RemoveObject j) (s\<lparr>active := set_erase j (active s)\<rparr>)"
  from Cons.prems have rest:
    "fold (\<lambda>i (g, s). (removeNode g i,
                    log_event (RemoveObject i) (s\<lparr>active := set_erase i (active s)\<rparr>)))
       js (?g1, ?s1) = (g', s')" by simp
  note ih = Cons.IH[OF rest]
  have a: "\<forall>l i. in_layer g' l i = (i \<notin> set (j # js) \<and> in_layer g l i)"
    using ih by (auto simp: in_layer_removeNode)
  have b: "set (active s') = set (active s) - set (j # js)"
    using ih by (auto simp: log_event_def set_set_erase)
  have c: "components s' = components s \<and> node_to_component s' = node_to_component s
          \<and> ignored s' = ignored s \<and> next_node_id s' = next_node_id s
          \<and> components_ids s' = components_ids s"
    using ih by (simp add: log_event_def)
  from ih obtain e2 where e2: "history s' = history ?s1 @ e2" "list_all (\<lambda>e. phase_rank e = 2) e2"
    by blast
  have "history s' = history s @ (RemoveObject j # e2)" using e2(1) by (simp add: log_event_def)
  moreover have "list_all (\<lambda>e. phase_rank e = 2) (RemoveObject j # e2)" using e2(2) by simp
  ultimately have d: "\<exists>evs. history s' = history s @ evs \<and> list_all (\<lambda>e. phase_rank e = 2) evs"
    by blast
  from a b c d show ?case by blast
qed

lemma retire_component_facts:
  assumes "retire_component (k, c) (g, s) = (g', s')"
  shows "(\<forall>l i. in_layer g' l i = (i \<notin> set (objects c) \<and> in_layer g l i))
       \<and> set (active s') = set (active s) - set (objects c)
       \<and> components s' = filter (\<lambda>(k', c'). k' \<noteq> k) (components s)
       \<and> (\<forall>i. node_to_component s' i = (if i \<in> set (segments c) then None else node_to_component s i))
       \<and> ignored s' = ignored s \<and> next_node_id s' = next_node_id s
       \<and> components_ids s' = markFree k (components_ids s)
       \<and> (\<exists>evs. history s' = history s @ evs \<and> list_all (\<lambda>e. phase_rank e = 2) evs)"
proof -
  let ?s1 = "s\<lparr>node_to_component := fold (\<lambda>i m. m(i := None)) (segments c) (node_to_component s)\<rparr>"
  obtain g2 s2 where inner:
    "fold (\<lambda>i (g, s). (removeNode g i,
                    log_event (RemoveObject i) (s\<lparr>active := set_erase i (active s)\<rparr>)))
       (objects c) (g, ?s1) = (g2, s2)"
    by (cases "fold (\<lambda>i (g, s). (removeNode g i,
                    log_event (RemoveObject i) (s\<lparr>active := set_erase i (active s)\<rparr>)))
       (objects c) (g, ?s1)") auto
  have g': "g' = g2"
    and s': "s' = log_event (Retire k)
                   (s2\<lparr>components_ids := markFree k (components_ids s2),
                       components := filter (\<lambda>(k', c'). k' \<noteq> k) (components s2)\<rparr>)"
    using assms inner by (simp_all add: retire_component_def Let_def)
  note f = remove_objects_facts[OF inner]
  from f obtain e1 where e1: "history s2 = history ?s1 @ e1" "list_all (\<lambda>e. phase_rank e = 2) e1"
    by blast
  have "history s' = history s @ (e1 @ [Retire k])" unfolding s' using e1(1) by (simp add: log_event_def)
  moreover have "list_all (\<lambda>e. phase_rank e = 2) (e1 @ [Retire k])" using e1(2) by simp
  ultimately have h: "\<exists>evs. history s' = history s @ evs \<and> list_all (\<lambda>e. phase_rank e = 2) evs"
    by blast
  have a: "\<forall>l i. in_layer g' l i = (i \<notin> set (objects c) \<and> in_layer g l i)"
    unfolding g' using f by blast
  have b: "set (active s') = set (active s) - set (objects c)"
    unfolding s' using f by (simp add: log_event_def)
  have c: "components s' = filter (\<lambda>(k', c'). k' \<noteq> k) (components s)"
    unfolding s' using f by (simp add: log_event_def)
  have d: "\<forall>i. node_to_component s' i = (if i \<in> set (segments c) then None else node_to_component s i)"
    unfolding s' using f by (simp add: log_event_def fold_erase_keys)
  have e: "ignored s' = ignored s \<and> next_node_id s' = next_node_id s
       \<and> components_ids s' = markFree k (components_ids s)"
    unfolding s' using f by (simp add: log_event_def)
  from a b c d e h show ?thesis by blast
qed

lemma retire_fold_facts:
  assumes "fold (\<lambda>kc gs. if fst kc \<in> act then retire_component kc gs else gs) xs (g, s) = (g', s')"
  shows "(\<forall>l i. in_layer g' l i =
            (in_layer g l i \<and> i \<notin> (\<Union>kc \<in> {kc \<in> set xs. fst kc \<in> act}. set (objects (snd kc)))))
       \<and> set (active s') = set (active s) - (\<Union>kc \<in> {kc \<in> set xs. fst kc \<in> act}. set (objects (snd kc)))
       \<and> components s' = filter (\<lambda>kc. \<not> (fst kc \<in> act \<and> fst kc \<in> fst ` set xs)) (components s)
       \<and> (\<forall>i. node_to_component s' i =
             (if i \<in> (\<Union>kc \<in> {kc \<in> set xs. fst kc \<in> act}. set (segments (snd kc))) then None
              else node_to_component s i))
       \<and> ignored s' = ignored s \<and> next_node_id s' = next_node_id s
       \<and> (\<exists>evs. history s' = history s @ evs \<and> list_all (\<lambda>e. phase_rank e = 2) evs)"
  using assms
proof (induction xs arbitrary: g s)
  case Nil
  then show ?case by simp
next
  case (Cons kc xs)
  obtain k c where kc: "kc = (k, c)" by (cases kc)
  show ?case
  proof (cases "k \<in> act")
    case False
    with Cons.prems kc have rest:
      "fold (\<lambda>kc gs. if fst kc \<in> act then retire_component kc gs else gs) xs (g, s) = (g', s')"
      by simp
    note ih = Cons.IH[OF rest]
    have eq1: "{kc' \<in> set (kc # xs). fst kc' \<in> act} = {kc' \<in> set xs. fst kc' \<in> act}"
      using False kc by auto
    have eq2: "filter (\<lambda>kc'. \<not> (fst kc' \<in> act \<and> fst kc' \<in> fst ` set (kc # xs))) (components s)
             = filter (\<lambda>kc'. \<not> (fst kc' \<in> act \<and> fst kc' \<in> fst ` set xs)) (components s)"
      using False kc by (intro filter_cong) auto
    show ?thesis unfolding eq1 eq2 using ih by blast
  next
    case True
    obtain g1 s1 where one: "retire_component (k, c) (g, s) = (g1, s1)"
      by (cases "retire_component (k, c) (g, s)") auto
    with Cons.prems kc True have rest:
      "fold (\<lambda>kc gs. if fst kc \<in> act then retire_component kc gs else gs) xs (g1, s1) = (g', s')"
      by simp
    note f = retire_component_facts[OF one]
    note ih = Cons.IH[OF rest]
    let ?R = "\<lambda>ys. (\<Union>kc \<in> {kc \<in> set ys. fst kc \<in> act}. set (objects (snd kc)))"
    let ?S = "\<lambda>ys. (\<Union>kc \<in> {kc \<in> set ys. fst kc \<in> act}. set (segments (snd kc)))"
    have R: "?R (kc # xs) = set (objects c) \<union> ?R xs" using True kc by auto
    have S: "?S (kc # xs) = set (segments c) \<union> ?S xs" using True kc by auto
    have a: "\<forall>l i. in_layer g' l i = (in_layer g l i \<and> i \<notin> ?R (kc # xs))"
      unfolding R using ih f by auto
    have b: "set (active s') = set (active s) - ?R (kc # xs)"
      unfolding R using ih f by auto
    have c1: "components s' = filter (\<lambda>kc'. \<not> (fst kc' \<in> act \<and> fst kc' \<in> fst ` set xs))
                 (filter (\<lambda>(k', c'). k' \<noteq> k) (components s))"
      using ih f by simp
    have c: "components s' = filter (\<lambda>kc'. \<not> (fst kc' \<in> act \<and> fst kc' \<in> fst ` set (kc # xs))) (components s)"
      unfolding c1 filter_filter using True kc by (intro filter_cong) auto
    have d: "\<forall>i. node_to_component s' i = (if i \<in> ?S (kc # xs) then None else node_to_component s i)"
      unfolding S using ih f by auto
    have e: "ignored s' = ignored s \<and> next_node_id s' = next_node_id s" using ih f by simp
    from f obtain e1 where e1: "history s1 = history s @ e1" "list_all (\<lambda>e. phase_rank e = 2) e1"
      by blast
    from ih obtain e2 where e2: "history s' = history s1 @ e2" "list_all (\<lambda>e. phase_rank e = 2) e2"
      by blast
    have "history s' = history s @ (e1 @ e2)" using e1 e2 by simp
    moreover have "list_all (\<lambda>e. phase_rank e = 2) (e1 @ e2)" using e1 e2 by simp
    ultimately have h: "\<exists>evs. history s' = history s @ evs \<and> list_all (\<lambda>e. phase_rank e = 2) evs"
      by blast
    from a b c d e h show ?thesis by blast
  qed
qed

lemma clearActiveComponents_invariant:
  assumes run: "clearActiveComponents g act s = (g', s')"
    and inv: "component_invariant s"
  shows "component_invariant s'"
proof -
  note f = retire_fold_facts[OF run[unfolded clearActiveComponents_def]]
  from f have comps: "components s' =
      filter (\<lambda>kc. \<not> (fst kc \<in> act \<and> fst kc \<in> fst ` set (components s))) (components s)"
    by blast
  have sub: "set (components s') \<subseteq> set (components s)" unfolding comps by auto
  have kept: "\<forall>kc \<in> set (components s'). fst kc \<notin> act" unfolding comps by force
  from f have n2c: "\<forall>i. node_to_component s' i =
             (if i \<in> (\<Union>kc \<in> {kc \<in> set (components s). fst kc \<in> act}. set (segments (snd kc))) then None
              else node_to_component s i)" by blast
  from f have ig: "ignored s' = ignored s" by blast
  from inv have d0: "distinct (map fst (components s))" and r0: "segments_registered s"
    and j0: "segments_disjoint s" by (simp_all add: component_invariant_def)
  have d: "distinct (map fst (components s'))" unfolding comps using d0 by (rule distinct_map_filter)
  have j: "segments_disjoint s'"
    using j0 sub unfolding segments_disjoint_def by blast
  have r: "segments_registered s'"
    unfolding segments_registered_def
  proof (intro ballI, clarify, intro conjI)
    fix k' c' assume mem: "(k', c') \<in> set (components s')"
    then have mem0: "(k', c') \<in> set (components s)" using sub by blast
    from mem kept have notact: "k' \<notin> act" by auto
    show "set (segments c') \<subseteq> dom (node_to_component s')"
    proof
      fix i assume i: "i \<in> set (segments c')"
      have "i \<in> dom (node_to_component s)"
        using r0 mem0 i unfolding segments_registered_def by blast
      moreover have "i \<notin> (\<Union>kc \<in> {kc \<in> set (components s). fst kc \<in> act}. set (segments (snd kc)))"
      proof
        assume "i \<in> (\<Union>kc \<in> {kc \<in> set (components s). fst kc \<in> act}. set (segments (snd kc)))"
        then obtain k c where kc: "(k, c) \<in> set (components s)" "k \<in> act" "i \<in> set (segments c)"
          by auto
        with notact have "k \<noteq> k'" by blast
        with j0 kc(1) mem0 have "set (segments c) \<inter> set (segments c') = {}"
          unfolding segments_disjoint_def by blast
        with kc(3) i show False by blast
      qed
      ultimately show "i \<in> dom (node_to_component s')" using n2c by (auto simp: dom_def)
    qed
    show "set (segments c') \<inter> ignored s' = {}"
      using r0 mem0 ig unfolding segments_registered_def by blast
  qed
  from d r j show ?thesis by (simp add: component_invariant_def)
qed

lemma nodes_kept_no_active:
  assumes "nodes_kept g g'" and "no_active_segment g i"
  shows "no_active_segment g' i"
proof -
  from assms(1) have "rel_option node_kept (getNode g i) (getNode g' i)" by (simp add: nodes_kept_def)
  with assms(2) show ?thesis
    by (cases "getNode g i"; cases "getNode g' i") (auto simp: no_active_segment_def node_kept_def)
qed

lemma removeNode_no_active: "no_active_segment g i \<Longrightarrow> no_active_segment (removeNode g j) i"
  by (cases "getNode g i") (auto simp: no_active_segment_def getNode_removeNode)

lemma emplaceNode_no_active:
  "no_active_segment g i \<Longrightarrow> no_active_segment (emplaceNode g OBJECTS n a) i"
  by (auto simp: no_active_segment_def getNode_emplaceNode)

lemma remove_objects_no_active:
  assumes "fold (\<lambda>i (g, s). (removeNode g i,
                    log_event (RemoveObject i) (s\<lparr>active := set_erase i (active s)\<rparr>)))
             objs (g, s) = (g', s')"
    and "no_active_segment g i"
  shows "no_active_segment g' i"
  using assms
proof (induction objs arbitrary: g s)
  case Nil
  then show ?case by simp
next
  case (Cons j js)
  let ?g1 = "removeNode g j"
  let ?s1 = "log_event (RemoveObject j) (s\<lparr>active := set_erase j (active s)\<rparr>)"
  from Cons.prems(1) have rest:
    "fold (\<lambda>i (g, s). (removeNode g i,
                    log_event (RemoveObject i) (s\<lparr>active := set_erase i (active s)\<rparr>)))
       js (?g1, ?s1) = (g', s')" by simp
  show ?case by (rule Cons.IH[OF rest removeNode_no_active[OF Cons.prems(2)]])
qed

lemma retire_component_no_active:
  assumes "retire_component (k, c) (g, s) = (g', s')" and "no_active_segment g i"
  shows "no_active_segment g' i"
proof -
  let ?s1 = "s\<lparr>node_to_component := fold (\<lambda>i m. m(i := None)) (segments c) (node_to_component s)\<rparr>"
  obtain g2 s2 where inner:
    "fold (\<lambda>i (g, s). (removeNode g i,
                    log_event (RemoveObject i) (s\<lparr>active := set_erase i (active s)\<rparr>)))
       (objects c) (g, ?s1) = (g2, s2)"
    by (cases "fold (\<lambda>i (g, s). (removeNode g i,
                    log_event (RemoveObject i) (s\<lparr>active := set_erase i (active s)\<rparr>)))
       (objects c) (g, ?s1)") auto
  have g': "g' = g2" using assms(1) inner by (simp add: retire_component_def Let_def)
  show ?thesis unfolding g' by (rule remove_objects_no_active[OF inner assms(2)])
qed

lemma clearActiveComponents_no_active:
  assumes "clearActiveComponents g act s = (g', s')" and "no_active_segment g i"
  shows "no_active_segment g' i"
proof -
  have "fold (\<lambda>kc gs. if fst kc \<in> act then retire_component kc gs else gs) xs (g, s) = (g', s')
          \<Longrightarrow> no_active_segment g i \<Longrightarrow> no_active_segment g' i" for xs
  proof (induction xs arbitrary: g s)
    case Nil
    then show ?case by simp
  next
    case (Cons kc xs)
    obtain k c where kc: "kc = (k, c)" by (cases kc)
    show ?case
    proof (cases "k \<in> act")
      case True
      obtain g1 s1 where one: "retire_component (k, c) (g, s) = (g1, s1)"
        by (cases "retire_component (k, c) (g, s)")
      with Cons.prems(1) kc True have rest:
        "fold (\<lambda>kc gs. if fst kc \<in> act then retire_component kc gs else gs) xs (g1, s1) = (g', s')"
        by simp
      show ?thesis by (rule Cons.IH[OF rest retire_component_no_active[OF one Cons.prems(2)]])
    next
      case False
      with Cons.prems(1) kc have rest:
        "fold (\<lambda>kc gs. if fst kc \<in> act then retire_component kc gs else gs) xs (g, s) = (g', s')"
        by simp
      show ?thesis by (rule Cons.IH[OF rest Cons.prems(2)])
    qed
  qed
  from this[OF assms(1)[unfolded clearActiveComponents_def] assms(2)] show ?thesis .
qed

subsection \<open>Discovery and materialization\<close>

lemma expand_subset: "set (expand es cs grp) \<subseteq> set grp \<union> set cs"
  by (auto simp: expand_def)

lemma funpow_expand_subset: "set ((expand es cs ^^ n) grp) \<subseteq> set grp \<union> set cs"
proof (induction n)
  case 0
  then show ?case by simp
next
  case (Suc n)
  have "set ((expand es cs ^^ Suc n) grp) \<subseteq> set ((expand es cs ^^ n) grp) \<union> set cs"
    using expand_subset[where es = es and cs = cs and grp = "(expand es cs ^^ n) grp"] by simp
  with Suc show ?case by blast
qed

lemma component_of_subset: "set (component_of es cs n) \<subseteq> insert n (set cs)"
  using funpow_expand_subset[where es = es and cs = cs and n = "length cs" and grp = "[n]"]
  by (simp add: component_of_def)

lemma split_components_subset: "G \<in> set (split_components es cs) \<Longrightarrow> set G \<subseteq> set cs"
proof (induction es cs rule: split_components.induct)
  case (1 es)
  then show ?case by simp
next
  case (2 es n rest)
  from "2.prems" have "G = component_of es (n # rest) n
      \<or> G \<in> set (split_components es (filter (\<lambda>c. c \<notin> set (component_of es (n # rest) n)) rest))"
    by simp
  then show ?case
  proof
    assume "G = component_of es (n # rest) n"
    then show ?thesis using component_of_subset[where es = es and cs = "n # rest" and n = n] by auto
  next
    assume "G \<in> set (split_components es (filter (\<lambda>c. c \<notin> set (component_of es (n # rest) n)) rest))"
    from "2.IH"[OF this] show ?thesis by auto
  qed
qed

lemma split_components_disjoint: "groups_disjoint (split_components es cs)"
proof (induction es cs rule: split_components.induct)
  case (1 es)
  then show ?case by simp
next
  case (2 es n rest)
  let ?G = "component_of es (n # rest) n"
  let ?rest = "filter (\<lambda>c. c \<notin> set ?G) rest"
  have "list_all (\<lambda>H. set ?G \<inter> set H = {}) (split_components es ?rest)"
    unfolding list_all_iff
  proof
    fix H assume "H \<in> set (split_components es ?rest)"
    then have "set H \<subseteq> set ?rest" by (rule split_components_subset)
    then show "set ?G \<inter> set H = {}" by auto
  qed
  with "2.IH" show ?case by simp
qed

lemma getConnectedComponents_valid:
  assumes "G \<in> set (getConnectedComponents g l node_valid edge_valid)" and "i \<in> set G"
  shows "node_valid i \<and> in_layer g l i"
proof -
  from assms(1) have "set G \<subseteq> set (filter node_valid (layer_ids g l))"
    unfolding getConnectedComponents_def by (rule split_components_subset)
  with assms(2) show ?thesis by (auto simp: set_layer_ids)
qed

lemma getConnectedComponents_disjoint:
  "groups_disjoint (getConnectedComponents g l node_valid edge_valid)"
  unfolding getConnectedComponents_def by (rule split_components_disjoint)

lemma objects_added_same:
  "next_node_id s' = next_node_id s \<Longrightarrow> active s' = active s \<Longrightarrow> objects_added g s g s'"
  by (simp add: objects_added_def)

lemma objects_added_frame:
  assumes "objects_added g s g' s'"
    and "next_node_id sa = next_node_id s" and "active sa = active s"
    and "next_node_id sb = next_node_id s'" and "active sb = active s'"
  shows "objects_added g sa g' sb"
  using assms by (simp add: objects_added_def)

lemma objects_added_trans:
  assumes a: "objects_added g s g1 s1" and b: "objects_added g1 s1 g' s'"
  shows "objects_added g s g' s'"
proof -
  from a have n1: "next_node_id s \<le> next_node_id s1"
    and l1: "\<forall>l i. in_layer g l i \<longrightarrow> in_layer g1 l i"
    and g1: "\<forall>l i. in_layer g1 l i \<longrightarrow>
             in_layer g l i \<or> (l = OBJECTS \<and> next_node_id s \<le> i \<and> i < next_node_id s1)"
    and b1: "\<forall>i \<in> set (active s1). i \<in> set (active s)
             \<or> (next_node_id s \<le> i \<and> i < next_node_id s1
                 \<and> (getNode g i = None \<longrightarrow> in_layer g1 OBJECTS i))"
    by (simp_all add: objects_added_def)
  from b have n2: "next_node_id s1 \<le> next_node_id s'"
    and l2: "\<forall>l i. in_layer g1 l i \<longrightarrow> in_layer g' l i"
    and g2: "\<forall>l i. in_layer g' l i \<longrightarrow>
             in_layer g1 l i \<or> (l = OBJECTS \<and> next_node_id s1 \<le> i \<and> i < next_node_id s')"
    and b2: "\<forall>i \<in> set (active s'). i \<in> set (active s1)
             \<or> (next_node_id s1 \<le> i \<and> i < next_node_id s'
                 \<and> (getNode g1 i = None \<longrightarrow> in_layer g' OBJECTS i))"
    by (simp_all add: objects_added_def)
  have N: "next_node_id s \<le> next_node_id s'" using n1 n2 by simp
  have L: "\<forall>l i. in_layer g l i \<longrightarrow> in_layer g' l i" using l1 l2 by blast
  have G: "\<forall>l i. in_layer g' l i \<longrightarrow>
             in_layer g l i \<or> (l = OBJECTS \<and> next_node_id s \<le> i \<and> i < next_node_id s')"
  proof (intro allI impI)
    fix l i assume "in_layer g' l i"
    with g2 have "in_layer g1 l i \<or> (l = OBJECTS \<and> next_node_id s1 \<le> i \<and> i < next_node_id s')"
      by blast
    then show "in_layer g l i \<or> (l = OBJECTS \<and> next_node_id s \<le> i \<and> i < next_node_id s')"
      using g1 n1 n2 by (metis le_trans less_le_trans)
  qed
  have B: "\<forall>i \<in> set (active s'). i \<in> set (active s)
             \<or> (next_node_id s \<le> i \<and> i < next_node_id s'
                 \<and> (getNode g i = None \<longrightarrow> in_layer g' OBJECTS i))"
  proof
    fix i assume "i \<in> set (active s')"
    with b2 consider (old) "i \<in> set (active s1)"
      | (new) "next_node_id s1 \<le> i" "i < next_node_id s'"
              "getNode g1 i = None \<longrightarrow> in_layer g' OBJECTS i" by blast
    then show "i \<in> set (active s)
             \<or> (next_node_id s \<le> i \<and> i < next_node_id s'
                 \<and> (getNode g i = None \<longrightarrow> in_layer g' OBJECTS i))"
    proof cases
      case old
      with b1 have "i \<in> set (active s)
             \<or> (next_node_id s \<le> i \<and> i < next_node_id s1
                 \<and> (getNode g i = None \<longrightarrow> in_layer g1 OBJECTS i))" by blast
      then show ?thesis using l2 n2 by (metis less_le_trans)
    next
      case new
      have "getNode g i = None \<longrightarrow> getNode g1 i = None"
      proof
        assume none: "getNode g i = None"
        show "getNode g1 i = None"
        proof (rule ccontr)
          assume "getNode g1 i \<noteq> None"
          then obtain l where "in_layer g1 l i" by (auto simp: getNode_None_iff)
          with g1 have "in_layer g l i \<or> i < next_node_id s1" by blast
          with none new(1) show False by (auto simp: getNode_None_iff)
        qed
      qed
      with new n1 show ?thesis by auto
    qed
  qed
  from N L G B show ?thesis by (simp add: objects_added_def)
qed



lemma materialize_cases:
  assumes "materialize config orc cluster (g, s, objs) = Inr (g', s', objs')"
  obtains (skip) evs where "g' = g" "objs' = objs" "s' = s\<lparr>history := history s @ evs\<rparr>"
      "list_all (\<lambda>e. phase_rank e = 4) evs" "\<forall>k cl. Cluster k cl \<notin> set evs"
  | (created) attrs evs where
      "g' = emplaceNode g OBJECTS (next_node_id s) attrs
       \<or> (\<exists>p. g' = insertEdge (emplaceNode g OBJECTS (next_node_id s) attrs) (next_node_id s) p)"
      "set (active s') \<subseteq> insert (next_node_id s) (set (active s))"
      "next_node_id s' = next_node_id s + 1"
      "components s' = components s" "node_to_component s' = node_to_component s"
      "ignored s' = ignored s" "components_ids s' = components_ids s"
      "history s' = history s @ evs" "list_all (\<lambda>e. phase_rank e = 4) evs"
      "objs' = objs @ [next_node_id s]" "\<forall>k cl. Cluster k cl \<notin> set evs"
proof (cases "getMergedAttributes orc g cluster")
  case (Inl e)
  then show ?thesis using assms by (simp add: materialize_def)
next
  case (Inr r)
  show ?thesis
  proof (cases r)
    case None
    then have "(g', s', objs') = (g, s\<lparr>history := history s @ [EmptyCluster]\<rparr>, objs)"
      using assms Inr by (simp add: materialize_def log_event_def)
    then show ?thesis using skip[of "[EmptyCluster]"] by simp
  next
    case (Some attrs)
    show ?thesis
    proof (cases "getBestScore orc (semantic_feature attrs) < min_object_score config")
      case True
      then have "(g', s', objs') = (g, s, objs)"
        using assms Inr Some by (simp add: materialize_def)
      then show ?thesis using skip[of "[]"] by simp
    next
      case False
      let ?n = "next_node_id s"
      let ?g1 = "emplaceNode g OBJECTS ?n attrs"
      show ?thesis
      proof (cases "getBestParent ?g1 cluster")
        case (Inl e)
        then show ?thesis using assms Inr Some False by (simp add: materialize_def Let_def)
      next
        case (Inr bp)
        show ?thesis
        proof (cases bp)
          case None
          have r: "(g', s', objs') =
                (?g1, s\<lparr>history := history s @ [Materialize ?n, WithoutParent ?n],
                         active := set_insert ?n (active s), next_node_id := ?n + 1\<rparr>,
                 objs @ [?n])"
            using assms \<open>getMergedAttributes orc g cluster = Inr r\<close> Some False Inr None
            by (simp add: materialize_def Let_def log_event_def)
          show ?thesis
            by (rule created[of attrs "[Materialize ?n, WithoutParent ?n]"])
               (use r in \<open>simp_all add: set_set_insert\<close>)
        next
          case (Some pp)
          obtain p pa where pp: "pp = (p, pa)" by (cases pp)
          have r: "(g', s', objs') =
                (insertEdge ?g1 ?n p,
                 s\<lparr>history := history s @ [Materialize ?n, ParentLink ?n p],
                         active := (if pa then set_insert ?n (active s) else active s),
                         next_node_id := ?n + 1\<rparr>,
                 objs @ [?n])"
            using assms \<open>getMergedAttributes orc g cluster = Inr r\<close> \<open>r = Some attrs\<close> False Inr Some pp
            by (cases pa) (auto simp: materialize_def Let_def log_event_def)
          show ?thesis
            by (rule created[of attrs "[Materialize ?n, ParentLink ?n p]"])
               (use r in \<open>auto simp: set_set_insert\<close>)
        qed
      qed
    qed
  qed
qed

lemma created_node_layers:
  assumes "g' = emplaceNode g OBJECTS n attrs \<or> (\<exists>p. g' = insertEdge (emplaceNode g OBJECTS n attrs) n p)"
  shows "\<forall>l i. in_layer g' l i = (if i = n \<and> getNode g n = None then l = OBJECTS else in_layer g l i)"
  using assms by (auto simp: in_layer_insertEdge in_layer_emplaceNode)

lemma materialize_facts:
  assumes "materialize config orc cluster (g, s, objs) = Inr (g', s', objs')"
  shows "(components s' = components s \<and> node_to_component s' = node_to_component s
          \<and> ignored s' = ignored s \<and> components_ids s' = components_ids s)
       \<and> objects_added g s g' s'
       \<and> (\<exists>evs. history s' = history s @ evs \<and> list_all (\<lambda>e. phase_rank e = 4) evs)"
  using assms
proof (cases rule: materialize_cases)
  case (skip evs)
  have "objects_added g s g' s'"
    unfolding skip(1) by (rule objects_added_same) (simp_all add: skip(3))
  moreover have "\<exists>evs. history s' = history s @ evs \<and> list_all (\<lambda>e. phase_rank e = 4) evs"
    unfolding skip(3) using skip(4) by simp
  ultimately show ?thesis using skip(3) by simp
next
  case (created attrs evs)
  let ?n = "next_node_id s"
  note lay = created_node_layers[OF created(1)]
  have L: "\<forall>l i. in_layer g l i \<longrightarrow> in_layer g' l i"
    using lay by (auto simp: in_layer_def)
  have G: "\<forall>l i. in_layer g' l i \<longrightarrow>
             in_layer g l i \<or> (l = OBJECTS \<and> next_node_id s \<le> i \<and> i < next_node_id s')"
    using lay created(3) by (auto split: if_splits)
  have B: "\<forall>i \<in> set (active s'). i \<in> set (active s)
             \<or> (next_node_id s \<le> i \<and> i < next_node_id s'
                 \<and> (getNode g i = None \<longrightarrow> in_layer g' OBJECTS i))"
  proof
    fix i assume "i \<in> set (active s')"
    with created(2) have "i = ?n \<or> i \<in> set (active s)" by blast
    then show "i \<in> set (active s)
             \<or> (next_node_id s \<le> i \<and> i < next_node_id s'
                 \<and> (getNode g i = None \<longrightarrow> in_layer g' OBJECTS i))"
      using lay created(3) by auto
  qed
  have A: "objects_added g s g' s'"
    unfolding objects_added_def using L G B created(3) by simp
  have H: "\<exists>evs. history s' = history s @ evs \<and> list_all (\<lambda>e. phase_rank e = 4) evs"
    using created(8,9) by blast
  from created(4,5,6,7) A H show ?thesis by simp
qed

lemma materialize_all_facts:
  assumes "materialize_all config orc clusters (g, s, objs) = Inr (g', s', objs')"
  shows "(components s' = components s \<and> node_to_component s' = node_to_component s
          \<and> ignored s' = ignored s \<and> components_ids s' = components_ids s)
       \<and> objects_added g s g' s'
       \<and> (\<exists>evs. history s' = history s @ evs \<and> list_all (\<lambda>e. phase_rank e = 4) evs)"
  using assms
proof (induction clusters arbitrary: g s objs)
  case Nil
  then show ?case by (auto intro: objects_added_same)
next
  case (Cons c cs)
  from Cons.prems obtain g1 s1 objs1 where
    one: "materialize config orc c (g, s, objs) = Inr (g1, s1, objs1)"
    and rest: "materialize_all config orc cs (g1, s1, objs1) = Inr (g', s', objs')"
    by (auto split: sum.splits)
  note f = materialize_facts[OF one]
  note ih = Cons.IH[OF rest]
  from f obtain e1 where e1: "history s1 = history s @ e1" "list_all (\<lambda>e. phase_rank e = 4) e1"
    by blast
  from ih obtain e2 where e2: "history s' = history s1 @ e2" "list_all (\<lambda>e. phase_rank e = 4) e2"
    by blast
  have "history s' = history s @ (e1 @ e2)" using e1 e2 by simp
  moreover have "list_all (\<lambda>e. phase_rank e = 4) (e1 @ e2)" using e1 e2 by simp
  ultimately have H: "\<exists>evs. history s' = history s @ evs \<and> list_all (\<lambda>e. phase_rank e = 4) evs"
    by blast
  have F: "components s' = components s \<and> node_to_component s' = node_to_component s
          \<and> ignored s' = ignored s \<and> components_ids s' = components_ids s"
    using f ih by simp
  have A: "objects_added g s g' s'" using f ih objects_added_trans by blast
  from F A H show ?case by blast
qed

lemma fold_assign_keys: "fold (\<lambda>i m. m(i \<mapsto> k)) xs m i = (if i \<in> set xs then Some k else m i)"
  by (induction xs arbitrary: m) auto

lemma set_map_emplace: "set (map_emplace k v m) \<subseteq> insert (k, v) (set m)"
  by (auto simp: map_emplace_def set_insort_key)

lemma distinct_keys_insort:
  "k \<notin> fst ` set m \<Longrightarrow> distinct (map fst m) \<Longrightarrow> distinct (map fst (insort_key fst (k, v) m))"
  by (induction m) (auto simp: set_insort_key)

lemma distinct_keys_map_emplace:
  "distinct (map fst m) \<Longrightarrow> distinct (map fst (map_emplace k v m))"
  by (simp add: map_emplace_def distinct_keys_insort)

lemma new_component_facts:
  assumes "new_component config orc G (g, s) = Inr (g', s')"
  shows "(\<exists>objs. components s' =
            map_emplace (fst (IdTracker_next (components_ids s))) \<lparr>segments = G, objects = objs\<rparr>
              (components s))
       \<and> (\<forall>i. node_to_component s' i =
              (if i \<in> set G then Some (fst (IdTracker_next (components_ids s)))
               else node_to_component s i))
       \<and> ignored s' = ignored s
       \<and> objects_added g s g' s'
       \<and> (\<exists>evs. history s' = history s @ evs \<and> list_all (\<lambda>e. phase_rank e = 4) evs)"
proof -
  obtain new_id ids where nx: "IdTracker_next (components_ids s) = (new_id, ids)"
    by (cases "IdTracker_next (components_ids s)")
  let ?s1 = "log_event (Cluster new_id (getClusters orc g G))
               (s\<lparr>components_ids := ids,
                  node_to_component := fold (\<lambda>i m. m(i \<mapsto> new_id)) G (node_to_component s)\<rparr>)"
  from assms nx obtain g2 s2 objs where
    all: "materialize_all config orc (getClusters orc g G) (g, ?s1, []) = Inr (g2, s2, objs)"
    and g': "g' = g2"
    and s': "s' = s2\<lparr>components := map_emplace new_id \<lparr>segments = G, objects = objs\<rparr> (components s2)\<rparr>"
    by (auto simp: new_component_def Let_def split: sum.splits)
  note f = materialize_all_facts[OF all]
  have C: "\<exists>objs. components s' =
            map_emplace (fst (IdTracker_next (components_ids s))) \<lparr>segments = G, objects = objs\<rparr>
              (components s)"
    unfolding s' nx using f by (auto simp: log_event_def)
  have M: "\<forall>i. node_to_component s' i =
              (if i \<in> set G then Some (fst (IdTracker_next (components_ids s)))
               else node_to_component s i)"
    unfolding s' nx using f by (simp add: log_event_def fold_assign_keys)
  have I: "ignored s' = ignored s" unfolding s' using f by (simp add: log_event_def)
  from f have "objects_added g ?s1 g2 s2" by blast
  then have A: "objects_added g s g' s'"
    unfolding g' s' by (rule objects_added_frame) (simp_all add: log_event_def)
  from f obtain e2 where e2: "history s2 = history ?s1 @ e2" "list_all (\<lambda>e. phase_rank e = 4) e2"
    by blast
  have "history s' = history s @ (Cluster new_id (getClusters orc g G) # e2)"
    unfolding s' using e2(1) by (simp add: log_event_def)
  moreover have "list_all (\<lambda>e. phase_rank e = 4) (Cluster new_id (getClusters orc g G) # e2)"
    using e2(2) by simp
  ultimately have H: "\<exists>evs. history s' = history s @ evs \<and> list_all (\<lambda>e. phase_rank e = 4) evs"
    by blast
  from C M I A H show ?thesis by blast
qed

lemma new_component_invariant:
  assumes run: "new_component config orc G (g, s) = Inr (g', s')"
    and inv: "component_invariant s"
    and fresh: "set G \<inter> dom (node_to_component s) = {}" "set G \<inter> ignored s = {}"
  shows "component_invariant s' \<and> dom (node_to_component s') = dom (node_to_component s) \<union> set G
       \<and> ignored s' = ignored s"
proof -
  note f = new_component_facts[OF run]
  let ?k = "fst (IdTracker_next (components_ids s))"
  from f obtain objs where comps:
    "components s' = map_emplace ?k \<lparr>segments = G, objects = objs\<rparr> (components s)" by blast
  from f have n2c: "\<forall>i. node_to_component s' i = (if i \<in> set G then Some ?k else node_to_component s i)"
    by blast
  from f have ig: "ignored s' = ignored s" by blast
  have dom: "dom (node_to_component s') = dom (node_to_component s) \<union> set G"
    using n2c by (auto simp: dom_def)
  from inv have d0: "distinct (map fst (components s))" and r0: "segments_registered s"
    and j0: "segments_disjoint s" by (simp_all add: component_invariant_def)
  have mem: "\<And>k c. (k, c) \<in> set (components s') \<Longrightarrow>
               (k, c) \<in> set (components s) \<or> segments c = G"
    using set_map_emplace[of ?k "\<lparr>segments = G, objects = objs\<rparr>" "components s"] comps by auto
  have old: "\<And>k c. (k, c) \<in> set (components s) \<Longrightarrow>
               set (segments c) \<subseteq> dom (node_to_component s) \<and> set (segments c) \<inter> ignored s = {}"
    using r0 unfolding segments_registered_def by blast
  have d: "distinct (map fst (components s'))"
    unfolding comps using d0 by (rule distinct_keys_map_emplace)
  have r: "segments_registered s'"
    unfolding segments_registered_def
  proof (intro ballI, clarify)
    fix k c assume "(k, c) \<in> set (components s')"
    from mem[OF this] show "set (segments c) \<subseteq> dom (node_to_component s')
        \<and> set (segments c) \<inter> ignored s' = {}"
      using old[of k c] fresh dom ig by auto
  qed
  have pair: "set (segments c) \<inter> set (segments c') = {}"
    if a: "(k, c) \<in> set (components s')" and b: "(k', c') \<in> set (components s')"
      and ne: "k \<noteq> k'" for k c k' c'
  proof -
    have both_new: "\<not> ((k, c) \<notin> set (components s) \<and> (k', c') \<notin> set (components s))"
    proof
      assume n: "(k, c) \<notin> set (components s) \<and> (k', c') \<notin> set (components s)"
      have "set (components s') \<subseteq> insert (?k, \<lparr>segments = G, objects = objs\<rparr>) (set (components s))"
        unfolding comps by (rule set_map_emplace)
      with a b n have "k = ?k" "k' = ?k" by auto
      with ne show False by simp
    qed
    show ?thesis
    proof (cases "(k, c) \<in> set (components s)")
      case True
      show ?thesis
      proof (cases "(k', c') \<in> set (components s)")
        case True
        with \<open>(k, c) \<in> set (components s)\<close> j0 ne show ?thesis
          unfolding segments_disjoint_def by blast
      next
        case False
        with mem[OF b] have "segments c' = G" by blast
        with old[OF True] fresh show ?thesis by auto
      qed
    next
      case False
      with both_new have o: "(k', c') \<in> set (components s)" by blast
      from False mem[OF a] have "segments c = G" by blast
      with old[OF o] fresh show ?thesis by auto
    qed
  qed
  have j: "segments_disjoint s'"
    unfolding segments_disjoint_def using pair by blast
  from d r j dom ig show ?thesis by (simp add: component_invariant_def)
qed

lemma new_components_facts:
  assumes "new_components config orc Gs (g, s) = Inr (g', s')"
  shows "ignored s' = ignored s
       \<and> objects_added g s g' s'
       \<and> (\<exists>evs. history s' = history s @ evs \<and> list_all (\<lambda>e. phase_rank e = 4) evs)"
  using assms
proof (induction Gs arbitrary: g s)
  case Nil
  then show ?case by (auto intro: objects_added_same)
next
  case (Cons G Gs)
  from Cons.prems obtain g1 s1 where
    one: "new_component config orc G (g, s) = Inr (g1, s1)"
    and rest: "new_components config orc Gs (g1, s1) = Inr (g', s')"
    by (auto split: sum.splits)
  note f = new_component_facts[OF one]
  note ih = Cons.IH[OF rest]
  from f obtain e1 where e1: "history s1 = history s @ e1" "list_all (\<lambda>e. phase_rank e = 4) e1"
    by blast
  from ih obtain e2 where e2: "history s' = history s1 @ e2" "list_all (\<lambda>e. phase_rank e = 4) e2"
    by blast
  have "history s' = history s @ (e1 @ e2)" using e1 e2 by simp
  moreover have "list_all (\<lambda>e. phase_rank e = 4) (e1 @ e2)" using e1 e2 by simp
  ultimately have H: "\<exists>evs. history s' = history s @ evs \<and> list_all (\<lambda>e. phase_rank e = 4) evs"
    by blast
  have I: "ignored s' = ignored s" using f ih by simp
  have A: "objects_added g s g' s'" using f ih objects_added_trans by blast
  from I A H show ?case by blast
qed

lemma new_components_invariant:
  assumes "new_components config orc Gs (g, s) = Inr (g', s')"
    and "component_invariant s"
    and "groups_disjoint Gs"
    and "\<forall>G \<in> set Gs. set G \<inter> dom (node_to_component s) = {} \<and> set G \<inter> ignored s = {}"
  shows "component_invariant s'"
  using assms
proof (induction Gs arbitrary: g s)
  case Nil
  then show ?case by simp
next
  case (Cons G Gs)
  from Cons.prems(1) obtain g1 s1 where
    one: "new_component config orc G (g, s) = Inr (g1, s1)"
    and rest: "new_components config orc Gs (g1, s1) = Inr (g', s')"
    by (auto split: sum.splits)
  from Cons.prems(4) have fresh: "set G \<inter> dom (node_to_component s) = {}" "set G \<inter> ignored s = {}"
    by simp_all
  note f = new_component_invariant[OF one Cons.prems(2) fresh]
  from Cons.prems(3) have dis: "\<forall>H \<in> set Gs. set G \<inter> set H = {}" and gd: "groups_disjoint Gs"
    by (simp_all add: list_all_iff)
  have fresh1: "\<forall>H \<in> set Gs. set H \<inter> dom (node_to_component s1) = {} \<and> set H \<inter> ignored s1 = {}"
  proof
    fix H assume H: "H \<in> set Gs"
    with Cons.prems(4) have "set H \<inter> dom (node_to_component s) = {}" "set H \<inter> ignored s = {}"
      by simp_all
    moreover from dis H have "set G \<inter> set H = {}" by blast
    ultimately show "set H \<inter> dom (node_to_component s1) = {} \<and> set H \<inter> ignored s1 = {}"
      using f by auto
  qed
  from f have inv1: "component_invariant s1" by blast
  show ?case by (rule Cons.IH[OF rest inv1 gd fresh1])
qed

lemma detectObjects_facts:
  assumes "detectObjects config orc g s = Inr (g', s')"
  shows "ignored s' = ignored s
       \<and> objects_added g s g' s'
       \<and> (\<exists>found evs. history s' = history s @ Discover found # evs
              \<and> list_all (\<lambda>e. phase_rank e = 4) evs)"
proof -
  let ?found = "getConnectedComponents g SEGMENTS
                    (\<lambda>i. isNodeActive i (node_to_component s) (ignored s))
                    (\<lambda>(a, b). isNodeActive a (node_to_component s) (ignored s)
                             \<and> isNodeActive b (node_to_component s) (ignored s))"
  let ?s0 = "log_event (Discover ?found) s"
  have run: "new_components config orc ?found (g, ?s0) = Inr (g', s')"
    using assms by (simp add: detectObjects_def Let_def)
  note f = new_components_facts[OF run]
  from f obtain evs where evs: "history s' = history ?s0 @ evs" "list_all (\<lambda>e. phase_rank e = 4) evs"
    by blast
  have "history s' = history s @ Discover ?found # evs" using evs(1) by (simp add: log_event_def)
  with evs(2) have H: "\<exists>found evs. history s' = history s @ Discover found # evs
              \<and> list_all (\<lambda>e. phase_rank e = 4) evs" by blast
  have I: "ignored s' = ignored s" using f by (simp add: log_event_def)
  from f have "objects_added g ?s0 g' s'" by blast
  then have A: "objects_added g s g' s'"
    by (rule objects_added_frame) (simp_all add: log_event_def)
  from I A H show ?thesis by blast
qed

lemma detectObjects_invariant:
  assumes "detectObjects config orc g s = Inr (g', s')" and "component_invariant s"
  shows "component_invariant s'"
proof -
  let ?found = "getConnectedComponents g SEGMENTS
                    (\<lambda>i. isNodeActive i (node_to_component s) (ignored s))
                    (\<lambda>(a, b). isNodeActive a (node_to_component s) (ignored s)
                             \<and> isNodeActive b (node_to_component s) (ignored s))"
  let ?s0 = "log_event (Discover ?found) s"
  have run: "new_components config orc ?found (g, ?s0) = Inr (g', s')"
    using assms(1) by (simp add: detectObjects_def Let_def)
  have inv0: "component_invariant ?s0"
    using assms(2)
    by (simp add: component_invariant_def segments_registered_def segments_disjoint_def log_event_def)
  have gd: "groups_disjoint ?found" by (rule getConnectedComponents_disjoint)
  have fresh: "\<forall>G \<in> set ?found. set G \<inter> dom (node_to_component ?s0) = {} \<and> set G \<inter> ignored ?s0 = {}"
  proof
    fix G assume G: "G \<in> set ?found"
    have "\<forall>i \<in> set G. isNodeActive i (node_to_component s) (ignored s)"
      using getConnectedComponents_valid[OF G] by blast
    then show "set G \<inter> dom (node_to_component ?s0) = {} \<and> set G \<inter> ignored ?s0 = {}"
      by (auto simp: isNodeActive_def log_event_def)
  qed
  show ?thesis by (rule new_components_invariant[OF run inv0 gd fresh])
qed

lemma materialize_more:
  assumes "materialize config orc cluster (g, s, objs) = Inr (g', s', objs')"
  shows "(no_active_segment g i \<longrightarrow> no_active_segment g' i)
       \<and> (\<exists>evs. history s' = history s @ evs \<and> (\<forall>k cl. Cluster k cl \<notin> set evs))"
  using assms
proof (cases rule: materialize_cases)
  case (skip evs)
  have "history s' = history s @ evs" unfolding skip(3) by simp
  with skip(1) skip(5) show ?thesis by blast
next
  case (created attrs evs)
  have "no_active_segment g i \<longrightarrow> no_active_segment g' i"
  proof
    assume p: "no_active_segment g i"
    let ?g1 = "emplaceNode g OBJECTS (next_node_id s) attrs"
    have p1: "no_active_segment ?g1 i" by (rule emplaceNode_no_active[OF p])
    from created(1) show "no_active_segment g' i"
    proof
      assume "g' = ?g1"
      with p1 show ?thesis by simp
    next
      assume "\<exists>p. g' = insertEdge ?g1 (next_node_id s) p"
      then obtain q where "g' = insertEdge ?g1 (next_node_id s) q" by blast
      then show ?thesis using nodes_kept_no_active[OF nodes_kept_insertEdge p1] by simp
    qed
  qed
  with created(8) created(11) show ?thesis by blast
qed

lemma materialize_all_more:
  assumes "materialize_all config orc clusters (g, s, objs) = Inr (g', s', objs')"
  shows "(no_active_segment g i \<longrightarrow> no_active_segment g' i)
       \<and> (\<exists>evs. history s' = history s @ evs \<and> (\<forall>k cl. Cluster k cl \<notin> set evs))"
  using assms
proof (induction clusters arbitrary: g s objs)
  case Nil
  then have "g' = g" "history s' = history s @ []" by simp_all
  then show ?case by (intro conjI exI[of _ "[]"]) simp_all
next
  case (Cons c cs)
  from Cons.prems obtain g1 s1 objs1 where
    one: "materialize config orc c (g, s, objs) = Inr (g1, s1, objs1)"
    and rest: "materialize_all config orc cs (g1, s1, objs1) = Inr (g', s', objs')"
    by (auto split: sum.splits)
  note f = materialize_more[OF one, of i]
  note ih = Cons.IH[OF rest]
  from f obtain e1 where e1: "history s1 = history s @ e1" "\<forall>k cl. Cluster k cl \<notin> set e1" by blast
  from ih obtain e2 where e2: "history s' = history s1 @ e2" "\<forall>k cl. Cluster k cl \<notin> set e2" by blast
  have "history s' = history s @ (e1 @ e2) \<and> (\<forall>k cl. Cluster k cl \<notin> set (e1 @ e2))"
    using e1 e2 by simp
  then have H: "\<exists>evs. history s' = history s @ evs \<and> (\<forall>k cl. Cluster k cl \<notin> set evs)" by blast
  have "no_active_segment g i \<longrightarrow> no_active_segment g' i" using f ih by blast
  with H show ?case by blast
qed

lemma new_component_more:
  assumes "new_component config orc G (g, s) = Inr (g', s')"
  shows "(no_active_segment g i \<longrightarrow> no_active_segment g' i)
       \<and> (\<exists>evs. history s' = history s @ evs
            \<and> (\<forall>k cl. Cluster k cl \<in> set evs \<longrightarrow> cl = getClusters orc g G))"
proof -
  obtain new_id ids where nx: "IdTracker_next (components_ids s) = (new_id, ids)"
    by (cases "IdTracker_next (components_ids s)")
  let ?s1 = "log_event (Cluster new_id (getClusters orc g G))
               (s\<lparr>components_ids := ids,
                  node_to_component := fold (\<lambda>i m. m(i \<mapsto> new_id)) G (node_to_component s)\<rparr>)"
  from assms nx obtain g2 s2 objs where
    all: "materialize_all config orc (getClusters orc g G) (g, ?s1, []) = Inr (g2, s2, objs)"
    and g': "g' = g2"
    and s': "s' = s2\<lparr>components := map_emplace new_id \<lparr>segments = G, objects = objs\<rparr> (components s2)\<rparr>"
    by (auto simp: new_component_def Let_def split: sum.splits)
  note f = materialize_all_more[OF all, of i]
  from f obtain e2 where e2: "history s2 = history ?s1 @ e2" "\<forall>k cl. Cluster k cl \<notin> set e2" by blast
  have "history s' = history s @ (Cluster new_id (getClusters orc g G) # e2)"
    unfolding s' using e2(1) by (simp add: log_event_def)
  moreover have "\<forall>k cl. Cluster k cl \<in> set (Cluster new_id (getClusters orc g G) # e2)
                   \<longrightarrow> cl = getClusters orc g G"
    using e2(2) by auto
  ultimately have H: "\<exists>evs. history s' = history s @ evs
            \<and> (\<forall>k cl. Cluster k cl \<in> set evs \<longrightarrow> cl = getClusters orc g G)" by blast
  have "no_active_segment g i \<longrightarrow> no_active_segment g' i" unfolding g' using f by blast
  with H show ?thesis by blast
qed

lemma new_components_more:
  assumes "new_components config orc Gs (g, s) = Inr (g', s')"
  shows "(no_active_segment g i \<longrightarrow> no_active_segment g' i)
       \<and> (\<exists>evs. history s' = history s @ evs
            \<and> (\<forall>k cl. Cluster k cl \<in> set evs
                  \<longrightarrow> (\<exists>gy ns. ns \<in> set Gs \<and> cl = getClusters orc gy ns)))"
  using assms
proof (induction Gs arbitrary: g s)
  case Nil
  then have "g' = g" "history s' = history s @ []" by simp_all
  then show ?case by (intro conjI exI[of _ "[]"]) simp_all
next
  case (Cons G Gs)
  from Cons.prems obtain g1 s1 where
    one: "new_component config orc G (g, s) = Inr (g1, s1)"
    and rest: "new_components config orc Gs (g1, s1) = Inr (g', s')"
    by (auto split: sum.splits)
  note f = new_component_more[OF one, of i]
  note ih = Cons.IH[OF rest]
  from f obtain e1 where e1: "history s1 = history s @ e1"
    "\<forall>k cl. Cluster k cl \<in> set e1 \<longrightarrow> cl = getClusters orc g G" by blast
  from ih obtain e2 where e2: "history s' = history s1 @ e2"
    "\<forall>k cl. Cluster k cl \<in> set e2 \<longrightarrow> (\<exists>gy ns. ns \<in> set Gs \<and> cl = getClusters orc gy ns)" by blast
  have h: "history s' = history s @ (e1 @ e2)" using e1 e2 by simp
  have "\<forall>k cl. Cluster k cl \<in> set (e1 @ e2)
          \<longrightarrow> (\<exists>gy ns. ns \<in> set (G # Gs) \<and> cl = getClusters orc gy ns)"
  proof (intro allI impI)
    fix k cl assume "Cluster k cl \<in> set (e1 @ e2)"
    then consider "Cluster k cl \<in> set e1" | "Cluster k cl \<in> set e2" by auto
    then show "\<exists>gy ns. ns \<in> set (G # Gs) \<and> cl = getClusters orc gy ns"
    proof cases
      case 1
      with e1(2) have "cl = getClusters orc g G" by blast
      then show ?thesis by (intro exI[of _ g] exI[of _ G]) simp
    next
      case 2
      with e2(2) obtain gy ns where "ns \<in> set Gs" "cl = getClusters orc gy ns" by blast
      then show ?thesis by (intro exI[of _ gy] exI[of _ ns]) simp
    qed
  qed
  with h have H: "\<exists>evs. history s' = history s @ evs
            \<and> (\<forall>k cl. Cluster k cl \<in> set evs
                  \<longrightarrow> (\<exists>gy ns. ns \<in> set (G # Gs) \<and> cl = getClusters orc gy ns))" by blast
  have "no_active_segment g i \<longrightarrow> no_active_segment g' i" using f ih by blast
  with H show ?case by blast
qed

lemma detectObjects_more:
  assumes "detectObjects config orc g s = Inr (g', s')"
  shows "(no_active_segment g i \<longrightarrow> no_active_segment g' i)
       \<and> (\<exists>found evs. history s' = history s @ Discover found # evs
            \<and> list_all (\<lambda>e. phase_rank e = 4) evs
            \<and> (\<forall>x. x \<in> \<Union> (set ` set found) \<longrightarrow> x \<notin> ignored s \<and> node_to_component s x = None)
            \<and> (\<forall>k cl. Cluster k cl \<in> set evs
                  \<longrightarrow> (\<exists>gy ns. ns \<in> set found \<and> cl = getClusters orc gy ns)))"
proof -
  let ?found = "getConnectedComponents g SEGMENTS
                    (\<lambda>i. isNodeActive i (node_to_component s) (ignored s))
                    (\<lambda>(a, b). isNodeActive a (node_to_component s) (ignored s)
                             \<and> isNodeActive b (node_to_component s) (ignored s))"
  let ?s0 = "log_event (Discover ?found) s"
  have run: "new_components config orc ?found (g, ?s0) = Inr (g', s')"
    using assms by (simp add: detectObjects_def Let_def)
  note f = new_components_facts[OF run]
  note m = new_components_more[OF run, of i]
  from f obtain evs where evs: "history s' = history ?s0 @ evs" "list_all (\<lambda>e. phase_rank e = 4) evs"
    by blast
  from m obtain evs' where evs': "history s' = history ?s0 @ evs'"
    "\<forall>k cl. Cluster k cl \<in> set evs' \<longrightarrow> (\<exists>gy ns. ns \<in> set ?found \<and> cl = getClusters orc gy ns)"
    by blast
  from evs(1) evs'(1) have same: "evs' = evs" by simp
  have h: "history s' = history s @ Discover ?found # evs" using evs(1) by (simp add: log_event_def)
  have v: "\<forall>x. x \<in> \<Union> (set ` set ?found) \<longrightarrow> x \<notin> ignored s \<and> node_to_component s x = None"
  proof (intro allI impI)
    fix x assume "x \<in> \<Union> (set ` set ?found)"
    then obtain G where G: "G \<in> set ?found" "x \<in> set G" by blast
    from getConnectedComponents_valid[OF G]
    have "isNodeActive x (node_to_component s) (ignored s)" by simp
    then show "x \<notin> ignored s \<and> node_to_component s x = None" by (simp add: isNodeActive_def)
  qed
  note c = evs'(2)[unfolded same]
  have H: "\<exists>found evs. history s' = history s @ Discover found # evs
            \<and> list_all (\<lambda>e. phase_rank e = 4) evs
            \<and> (\<forall>x. x \<in> \<Union> (set ` set found) \<longrightarrow> x \<notin> ignored s \<and> node_to_component s x = None)
            \<and> (\<forall>k cl. Cluster k cl \<in> set evs
                  \<longrightarrow> (\<exists>gy ns. ns \<in> set found \<and> cl = getClusters orc gy ns))"
    using h evs(2) v c by (intro exI[of _ ?found] exI[of _ evs] conjI)
  have "no_active_segment g i \<longrightarrow> no_active_segment g' i" using m by blast
  with H show ?thesis by (rule conjI[rotated])
qed

subsection \<open>One cycle\<close>

lemma attach_one_frame:
  assumes "attach_one config finder j (g, s) = Inr (g1, s1)"
  shows "nodes_kept g g1
       \<and> set (active s1) \<subseteq> set (active s)
       \<and> (components s1 = components s \<and> node_to_component s1 = node_to_component s
          \<and> ignored s1 = ignored s \<and> next_node_id s1 = next_node_id s
          \<and> components_ids s1 = components_ids s)
       \<and> (\<exists>evs. history s1 = history s @ evs \<and> list_all (\<lambda>e. phase_rank e = 0) evs)"
proof -
  from assms obtain node where node: "getNode g j = Some node"
    by (auto simp: attach_one_def split: option.splits)
  have k: "nodes_kept g g1"
    using assms node
    by (auto simp: attach_one_def Let_def nodes_kept_refl nodes_kept_insertEdge
             split: option.splits if_splits)
  have a: "set (active s1) \<subseteq> set (active s)"
    using assms node
    by (auto simp: attach_one_def Let_def set_set_erase log_event_def split: option.splits if_splits)
  have f: "components s1 = components s \<and> node_to_component s1 = node_to_component s
          \<and> ignored s1 = ignored s \<and> next_node_id s1 = next_node_id s
          \<and> components_ids s1 = components_ids s"
    using assms node
    by (auto simp: attach_one_def Let_def log_event_def split: option.splits if_splits)
  have h: "\<exists>evs. history s1 = history s @ evs \<and> list_all (\<lambda>e. phase_rank e = 0) evs"
    using assms node
    by (auto simp: attach_one_def Let_def log_event_def split: option.splits if_splits)
  from k a f h show ?thesis by blast
qed

lemma attach_active_frame:
  assumes "attach_active config finder is (g, s) = Inr (g', s')"
  shows "nodes_kept g g'
       \<and> set (active s') \<subseteq> set (active s)
       \<and> (components s' = components s \<and> node_to_component s' = node_to_component s
          \<and> ignored s' = ignored s \<and> next_node_id s' = next_node_id s
          \<and> components_ids s' = components_ids s)
       \<and> (\<exists>evs. history s' = history s @ evs \<and> list_all (\<lambda>e. phase_rank e = 0) evs)"
  using assms
proof (induction "is" arbitrary: g s)
  case Nil
  then show ?case by (simp add: nodes_kept_refl)
next
  case (Cons j js)
  from Cons.prems obtain g1 s1 where
    one: "attach_one config finder j (g, s) = Inr (g1, s1)"
    and rest: "attach_active config finder js (g1, s1) = Inr (g', s')"
    by (auto split: sum.splits)
  note f = attach_one_frame[OF one]
  note ih = Cons.IH[OF rest]
  from f obtain e1 where e1: "history s1 = history s @ e1" "list_all (\<lambda>e. phase_rank e = 0) e1"
    by blast
  from ih obtain e2 where e2: "history s' = history s1 @ e2" "list_all (\<lambda>e. phase_rank e = 0) e2"
    by blast
  have "history s' = history s @ (e1 @ e2)" using e1 e2 by simp
  moreover have "list_all (\<lambda>e. phase_rank e = 0) (e1 @ e2)" using e1 e2 by simp
  ultimately have H: "\<exists>evs. history s' = history s @ evs \<and> list_all (\<lambda>e. phase_rank e = 0) evs"
    by blast
  have K: "nodes_kept g g'" using f ih nodes_kept_trans by blast
  have A: "set (active s') \<subseteq> set (active s)" using f ih by blast
  have F: "components s' = components s \<and> node_to_component s' = node_to_component s
          \<and> ignored s' = ignored s \<and> next_node_id s' = next_node_id s
          \<and> components_ids s' = components_ids s" using f ih by simp
  from K A F H show ?case by blast
qed

lemma updateActiveParents_facts:
  assumes "updateActiveParents config orc g s = Inr (g', s')"
  shows "nodes_kept g g'
       \<and> set (active s') \<subseteq> set (active s) \<union> {i. in_layer g OBJECTS i}
       \<and> (components s' = components s \<and> node_to_component s' = node_to_component s
          \<and> ignored s' = ignored s \<and> next_node_id s' = next_node_id s
          \<and> components_ids s' = components_ids s)
       \<and> (\<exists>evs. history s' = history s @ evs \<and> list_all (\<lambda>e. phase_rank e = 0) evs)"
proof -
  let ?s1 = "s\<lparr>active := fold set_insert (layer_ids g OBJECTS) (active s)\<rparr>"
  have run: "attach_active config (find_nearest orc g (layer_ids g PLACES)) (active ?s1) (g, ?s1)
               = Inr (g', s')"
    using assms by (simp add: updateActiveParents_def Let_def)
  note f = attach_active_frame[OF run]
  have "set (active ?s1) = set (active s) \<union> {i. in_layer g OBJECTS i}"
    by (auto simp: set_fold_set_insert set_layer_ids)
  with f have A: "set (active s') \<subseteq> set (active s) \<union> {i. in_layer g OBJECTS i}" by blast
  from f A show ?thesis by simp
qed

lemma addSegmentEdges_facts:
  assumes "addSegmentEdges config orc g s = (ac, g', s')"
  shows "nodes_kept g g'
      \<and> (components s' = components s \<and> node_to_component s' = node_to_component s
          \<and> active s' = active s \<and> next_node_id s' = next_node_id s
          \<and> components_ids s' = components_ids s)
      \<and> ignored s \<subseteq> ignored s'
      \<and> ignored s' \<subseteq> ignored s \<union> {i. node_to_component s i = None}
      \<and> (\<exists>evs. history s' = history s @ evs
           \<and> list_all (\<lambda>e. \<exists>a b. e = SegmentEdge a b \<and> a \<notin> ignored s) evs)"
proof -
  have run: "fold (examine_segment config orc (layer_ids g SEGMENTS)) (layer_ids g SEGMENTS) ({}, g, s)
               = (ac, g', s')"
    using assms by (simp add: addSegmentEdges_def Let_def)
  from examine_segments_facts[OF run] show ?thesis by blast
qed

lemma addSegmentEdges_invariant:
  assumes "addSegmentEdges config orc g s = (ac, g', s')" and "component_invariant s"
  shows "component_invariant s'"
proof -
  note f = addSegmentEdges_facts[OF assms(1)]
  from f have c: "components s' = components s" and n: "node_to_component s' = node_to_component s"
    and i: "ignored s' \<subseteq> ignored s \<union> {i. node_to_component s i = None}" by blast+
  from assms(2) have d0: "distinct (map fst (components s))" and r0: "segments_registered s"
    and j0: "segments_disjoint s" by (simp_all add: component_invariant_def)
  have r: "segments_registered s'"
    unfolding segments_registered_def c n
  proof (intro ballI, clarify)
    fix k c' assume m: "(k, c') \<in> set (components s)"
    with r0 have a: "set (segments c') \<subseteq> dom (node_to_component s)"
      and b: "set (segments c') \<inter> ignored s = {}" unfolding segments_registered_def by blast+
    have "set (segments c') \<inter> ignored s' = {}"
    proof (rule ccontr)
      assume "set (segments c') \<inter> ignored s' \<noteq> {}"
      then obtain x where x: "x \<in> set (segments c')" "x \<in> ignored s'" by blast
      from x(1) a obtain y where "node_to_component s x = Some y" by (auto simp: dom_def)
      moreover from x(1) b have "x \<notin> ignored s" by blast
      ultimately show False using i x(2) by auto
    qed
    with a show "set (segments c') \<subseteq> dom (node_to_component s) \<and> set (segments c') \<inter> ignored s' = {}"
      by simp
  qed
  have j: "segments_disjoint s'" using j0 unfolding segments_disjoint_def c .
  from d0 r j show ?thesis by (simp add: component_invariant_def c)
qed

lemma updateActiveParents_invariant:
  assumes "updateActiveParents config orc g s = Inr (g', s')" and "component_invariant s"
  shows "component_invariant s'"
proof -
  note f = updateActiveParents_facts[OF assms(1)]
  from f have "components s' = components s" "node_to_component s' = node_to_component s"
    "ignored s' = ignored s" by blast+
  with assms(2) show ?thesis
    by (simp add: component_invariant_def segments_registered_def segments_disjoint_def)
qed

lemma call_steps:
  assumes "call config orc g s = Inr (m, g', s')"
  obtains g1 s1 ac g2 s2 g3 s3 where
    "updateActiveParents config orc g s = Inr (g1, s1)"
    "addSegmentEdges config orc g1 s1 = (ac, g2, s2)"
    "clearActiveComponents g2 ac s2 = (g3, s3)"
    "detectObjects config orc g3 s3 = Inr (g', s')"
    "m = []"
proof -
  from assms obtain g1 s1 where u: "updateActiveParents config orc g s = Inr (g1, s1)"
    by (auto simp: call_def split: sum.splits)
  obtain ac g2 s2 where a: "addSegmentEdges config orc g1 s1 = (ac, g2, s2)"
    by (cases "addSegmentEdges config orc g1 s1") auto
  obtain g3 s3 where c: "clearActiveComponents g2 ac s2 = (g3, s3)"
    by (cases "clearActiveComponents g2 ac s2") auto
  from assms u a c have "detectObjects config orc g3 s3 = Inr (g', s')" and "m = []"
    by (auto simp: call_def split: sum.splits)
  with u a c that show ?thesis by blast
qed

lemma clearActiveComponents_facts:
  assumes "clearActiveComponents g act s = (g', s')"
  shows "(\<forall>l i. in_layer g' l i \<longrightarrow> in_layer g l i)
       \<and> (active_are_objects g s \<longrightarrow> active_are_objects g' s')
       \<and> next_node_id s' = next_node_id s
       \<and> ignored s' = ignored s
       \<and> (\<exists>evs. history s' = history s @ evs \<and> list_all (\<lambda>e. phase_rank e = 2) evs)"
proof -
  note f = retire_fold_facts[OF assms[unfolded clearActiveComponents_def]]
  let ?R = "(\<Union>kc \<in> {kc \<in> set (components s). fst kc \<in> act}. set (objects (snd kc)))"
  from f have lay: "\<forall>l i. in_layer g' l i = (in_layer g l i \<and> i \<notin> ?R)"
    and act: "set (active s') = set (active s) - ?R"
    and nx: "next_node_id s' = next_node_id s" by blast+
  have L: "\<forall>l i. in_layer g' l i \<longrightarrow> in_layer g l i" using lay by blast
  have A: "active_are_objects g s \<longrightarrow> active_are_objects g' s'"
    unfolding active_are_objects_def list_all_iff using lay act by blast
  from f L A nx show ?thesis by blast
qed

lemma call_invariant:
  assumes "call config orc g s = Inr (m, g', s')" and "component_invariant s"
  shows "component_invariant s'"
  using assms(1)
proof (cases rule: call_steps)
  case (1 g1 s1 ac g2 s2 g3 s3)
  have "component_invariant s1" by (rule updateActiveParents_invariant[OF 1(1) assms(2)])
  then have "component_invariant s2" by (rule addSegmentEdges_invariant[OF 1(2)])
  then have "component_invariant s3" by (rule clearActiveComponents_invariant[OF 1(3)])
  then show ?thesis by (rule detectObjects_invariant[OF 1(4)])
qed

lemma init_invariant: "component_invariant (ObjectUpdateFunctor_init config)"
  by (simp add: component_invariant_def segments_registered_def segments_disjoint_def
        ObjectUpdateFunctor_init_def)

lemma reachable_invariant: "reachable config orc s \<Longrightarrow> component_invariant s"
proof (induction rule: reachable.induct)
  case reachable_init
  show ?case by (rule init_invariant)
next
  case (reachable_cycle s g m g' s')
  show ?case by (rule call_invariant[OF reachable_cycle(2) reachable_cycle(3)])
qed






lemma sorted_same_rank: "list_all (\<lambda>e. phase_rank e = k) xs \<Longrightarrow> sorted (map phase_rank xs)"
  by (induction xs) (auto simp: list_all_iff)

lemma sorted_phases:
  assumes "list_all (\<lambda>e. phase_rank e = 0) a" and "list_all (\<lambda>e. phase_rank e = 1) b"
    and "list_all (\<lambda>e. phase_rank e = 2) r" and "list_all (\<lambda>e. phase_rank e = 4) c"
  shows "sorted (map phase_rank (a @ b @ r @ Discover found # c))"
  using assms sorted_same_rank[OF assms(1)] sorted_same_rank[OF assms(2)]
    sorted_same_rank[OF assms(3)] sorted_same_rank[OF assms(4)]
  by (auto simp: sorted_append list_all_iff)

lemma call_history:
  assumes "call config orc g s = Inr (m, g', s')"
  shows "\<exists>a b r found c. history s' = history s @ a @ b @ r @ Discover found # c
       \<and> list_all (\<lambda>e. phase_rank e = 0) a
       \<and> list_all (\<lambda>e. \<exists>x y. e = SegmentEdge x y \<and> x \<notin> ignored s) b
       \<and> list_all (\<lambda>e. phase_rank e = 2) r
       \<and> list_all (\<lambda>e. phase_rank e = 4) c"
  using assms
proof (cases rule: call_steps)
  case (1 g1 s1 ac g2 s2 g3 s3)
  from updateActiveParents_facts[OF 1(1)] obtain a where
    a: "history s1 = history s @ a" "list_all (\<lambda>e. phase_rank e = 0) a"
    and ig: "ignored s1 = ignored s" by blast
  from addSegmentEdges_facts[OF 1(2)] obtain b where
    b: "history s2 = history s1 @ b"
       "list_all (\<lambda>e. \<exists>x y. e = SegmentEdge x y \<and> x \<notin> ignored s1) b" by blast
  from clearActiveComponents_facts[OF 1(3)] obtain r where
    r: "history s3 = history s2 @ r" "list_all (\<lambda>e. phase_rank e = 2) r" by blast
  from detectObjects_facts[OF 1(4)] obtain found c where
    c: "history s' = history s3 @ Discover found # c" "list_all (\<lambda>e. phase_rank e = 4) c" by blast
  have "history s' = history s @ a @ b @ r @ Discover found # c"
    using a(1) b(1) r(1) c(1) by simp
  moreover have "list_all (\<lambda>e. \<exists>x y. e = SegmentEdge x y \<and> x \<notin> ignored s) b"
    using b(2) unfolding ig .
  ultimately show ?thesis using a(2) r(2) c(2) by blast
qed

lemma call_ignored_mono:
  assumes "call config orc g s = Inr (m, g', s')"
  shows "ignored s \<subseteq> ignored s'"
  using assms
proof (cases rule: call_steps)
  case (1 g1 s1 ac g2 s2 g3 s3)
  from updateActiveParents_facts[OF 1(1)] have "ignored s1 = ignored s" by blast
  moreover from addSegmentEdges_facts[OF 1(2)] have "ignored s1 \<subseteq> ignored s2" by blast
  moreover from clearActiveComponents_facts[OF 1(3)] have "ignored s3 = ignored s2" by blast
  moreover from detectObjects_facts[OF 1(4)] have "ignored s' = ignored s3" by blast
  ultimately show ?thesis by simp
qed

subsection \<open>Runs on the example inputs\<close>

lemmas example_defs =
  example_config_def example_oracles_def segment_node_def place_node_def object_node_def
  ObjectUpdateFunctor_init_def IdTracker_init_def NodeSymbol_def

lemmas cycle_defs =
  call_def updateActiveParents_def attach_one_def addSegmentEdges_def examine_segment_def
  check_other_def clearActiveComponents_def retire_component_def detectObjects_def
  new_component_def materialize_def getMergedAttributes_def getBestParent_def
  getConnectedComponents_def component_of_def expand_def adjacent_def isNodeActive_def
  OverlapIntersection_call_def vmin_def vsub_def vadd_def vdiv_def all_le_def all_ge_def
  rowwise_mean_def mat_add_def mat_div_def
  layer_ids_def in_layer_def layer_getNode_def getNode_def set_node_def hasEdge_def insertEdge_def
  removeNode_def emplaceNode_def set_insert_def set_erase_def map_emplace_def log_event_def
  IdTracker_next_def markFree_def Let_def

lemma cycle_returns_call:
  assumes "cycle_returns config orc g s"
  shows "call config orc g s = Inr ([], graph_after config orc g s, state_after config orc g s)"
proof (cases "call config orc g s")
  case (Inl e)
  with assms show ?thesis by (simp add: cycle_returns_def)
next
  case (Inr r)
  obtain m g' s' where r: "r = (m, g', s')" by (cases r)
  with Inr have c: "call config orc g s = Inr (m, g', s')" by simp
  then have "m = []" by (rule call_steps)
  with c show ?thesis by (simp add: state_after_def graph_after_def)
qed

lemma apart_cycle:
  "cycle_returns example_config example_oracles apart_graph (ObjectUpdateFunctor_init example_config)"
  "components (state_after example_config example_oracles apart_graph
                (ObjectUpdateFunctor_init example_config))
     = [(0, \<lparr>segments = [10], objects = [0]\<rparr>), (1, \<lparr>segments = [11], objects = [1]\<rparr>)]"
  by (simp_all add: cycle_returns_def state_after_def apart_graph_def example_defs cycle_defs)

lemma cycle_graph_history:
  "cycle_returns example_config example_oracles cycle_graph (ObjectUpdateFunctor_init example_config)"
  "history (state_after example_config example_oracles cycle_graph
                (ObjectUpdateFunctor_init example_config))
     = [DiscardingNearestNeighbor 100 50, Attach 100 50, SegmentEdge 10 11, SegmentEdge 11 10,
        Discover [[10, 11]], Cluster 0 [[10, 11]], Materialize 0, WithoutParent 0]"
  by (simp_all add: cycle_returns_def state_after_def cycle_graph_def example_defs cycle_defs)

lemma later_ignored: "later_state config orc s s'' \<Longrightarrow> ignored s \<subseteq> ignored s''"
proof (induction rule: later_state.induct)
  case later_now
  show ?case by simp
next
  case (later_cycle s1 g m g' s2)
  from call_ignored_mono[OF later_cycle(2)] later_cycle(3) show ?case by blast
qed

lemma later_reachable:
  "later_state config orc s s'' \<Longrightarrow> reachable config orc s \<Longrightarrow> reachable config orc s''"
proof (induction rule: later_state.induct)
  case later_now
  then show ?case by simp
next
  case (later_cycle s1 g m g' s2)
  from later_cycle(3)[OF later_cycle(4)] later_cycle(2) show ?case by (rule reachable_cycle)
qed

lemma call_no_edges_from_ignored:
  assumes "call config orc g s = Inr (m, g', s')" and "i \<in> ignored s"
  shows "\<exists>evs. history s' = history s @ evs \<and> (\<forall>b. SegmentEdge i b \<notin> set evs)"
proof -
  from call_history[OF assms(1)] obtain a b r found c where
    h: "history s' = history s @ a @ b @ r @ Discover found # c"
    and a: "list_all (\<lambda>e. phase_rank e = 0) a"
    and b: "list_all (\<lambda>e. \<exists>x y. e = SegmentEdge x y \<and> x \<notin> ignored s) b"
    and r: "list_all (\<lambda>e. phase_rank e = 2) r"
    and c: "list_all (\<lambda>e. phase_rank e = 4) c" by blast
  have "SegmentEdge i y \<notin> set (a @ b @ r @ Discover found # c)" for y
  proof
    assume "SegmentEdge i y \<in> set (a @ b @ r @ Discover found # c)"
    then consider "SegmentEdge i y \<in> set a" | "SegmentEdge i y \<in> set b"
      | "SegmentEdge i y \<in> set r" | "SegmentEdge i y \<in> set c" by auto
    then show False
    proof cases
      case 1 with a show False by (auto simp: list_all_iff)
    next
      case 2 with b assms(2) show False by (auto simp: list_all_iff)
    next
      case 3 with r show False by (auto simp: list_all_iff)
    next
      case 4 with c show False by (auto simp: list_all_iff)
    qed
  qed
  with h show ?thesis by blast
qed

lemma later_no_edges_from_ignored:
  "later_state config orc s s'' \<Longrightarrow> i \<in> ignored s \<Longrightarrow>
   \<exists>evs. history s'' = history s @ evs \<and> (\<forall>b. SegmentEdge i b \<notin> set evs)"
proof (induction rule: later_state.induct)
  case later_now
  have "history s = history s @ [] \<and> (\<forall>b. SegmentEdge i b \<notin> set [])" by simp
  then show ?case by blast
next
  case (later_cycle s1 g m g' s2)
  from later_cycle(3)[OF later_cycle(4)] obtain e1 where
    e1: "history s1 = history s @ e1" "\<forall>b. SegmentEdge i b \<notin> set e1" by blast
  have "i \<in> ignored s1" using later_ignored[OF later_cycle(1)] later_cycle(4) by blast
  from call_no_edges_from_ignored[OF later_cycle(2) this] obtain e2 where
    e2: "history s2 = history s1 @ e2" "\<forall>b. SegmentEdge i b \<notin> set e2" by blast
  have "history s2 = history s @ (e1 @ e2) \<and> (\<forall>b. SegmentEdge i b \<notin> set (e1 @ e2))"
    using e1 e2 by simp
  then show ?case by blast
qed

lemma call_marks_low_score:
  assumes run: "call config orc g s = Inr (m, g', s')"
    and node: "getNode g i = Some n" "node_layer n = SEGMENTS"
    and new: "i \<notin> ignored s" "node_to_component s i = None"
    and low: "getBestScore orc (rowwise_mean (semantic_feature (attributes n))) < min_segment_score config"
  shows "i \<in> ignored s'
       \<and> (\<exists>g1 s1 ac g2 s2 n2. updateActiveParents config orc g s = Inr (g1, s1)
             \<and> addSegmentEdges config orc g1 s1 = (ac, g2, s2)
             \<and> i \<in> ignored s2 \<and> getNode g2 i = Some n2 \<and> \<not> is_active (attributes n2))"
  using run
proof (cases rule: call_steps)
  case (1 g1 s1 ac g2 s2 g3 s3)
  note u = updateActiveParents_facts[OF 1(1)]
  from u have k: "nodes_kept g g1" and ig: "ignored s1 = ignored s"
    and nc: "node_to_component s1 = node_to_component s" by blast+
  from nodes_kept_feature[OF k node(1)] obtain n1 where
    n1: "getNode g1 i = Some n1" "semantic_feature (attributes n1) = semantic_feature (attributes n)"
    by blast
  have "in_layer g SEGMENTS i" using node by (simp add: in_layer_def)
  then have "in_layer g1 SEGMENTS i" using nodes_kept_in_layer[OF k] by simp
  then have mem: "i \<in> set (layer_ids g1 SEGMENTS)" by (simp add: set_layer_ids)
  have fold: "fold (examine_segment config orc (layer_ids g1 SEGMENTS)) (layer_ids g1 SEGMENTS)
                ({}, g1, s1) = (ac, g2, s2)"
    using 1(2) by (simp add: addSegmentEdges_def Let_def)
  have a1: "i \<notin> ignored s1" using new(1) ig by simp
  have a2: "node_to_component s1 i = None" using new(2) nc by simp
  have a3: "getBestScore orc (rowwise_mean (semantic_feature (attributes n1))) < min_segment_score config"
    using low n1(2) by simp
  from examine_segments_marks[OF fold mem n1(1) a1 a2 a3] obtain n2 where
    m: "i \<in> ignored s2" "getNode g2 i = Some n2" "\<not> is_active (attributes n2)" by blast
  from clearActiveComponents_facts[OF 1(3)] have "ignored s3 = ignored s2" by blast
  moreover from detectObjects_facts[OF 1(4)] have "ignored s' = ignored s3" by blast
  ultimately have "i \<in> ignored s'" using m(1) by simp
  with 1(1) 1(2) m show ?thesis by blast
qed

lemma low_score_cycles:
  "cycle_returns example_config example_oracles low_score_graph (ObjectUpdateFunctor_init example_config)"
  "ignored (state_after example_config example_oracles low_score_graph
              (ObjectUpdateFunctor_init example_config)) = {1}"
  "cycle_returns example_config example_oracles low_score_graph_later
     (state_after example_config example_oracles low_score_graph
        (ObjectUpdateFunctor_init example_config))"
  "edges (graph_after example_config example_oracles low_score_graph_later
     (state_after example_config example_oracles low_score_graph
        (ObjectUpdateFunctor_init example_config))) = [(2, 1)]"
  "history (state_after example_config example_oracles low_score_graph_later
     (state_after example_config example_oracles low_score_graph
        (ObjectUpdateFunctor_init example_config)))
   = [Discover [], SegmentEdge 2 1, Discover [[2]], Cluster 0 [[2]], Materialize 0, WithoutParent 0]"
  "components (state_after example_config example_oracles low_score_graph_later
     (state_after example_config example_oracles low_score_graph
        (ObjectUpdateFunctor_init example_config)))
   = [(0, \<lparr>segments = [2], objects = [0]\<rparr>)]"
  by (simp_all add: cycle_returns_def state_after_def graph_after_def low_score_graph_later_def
        low_score_graph_def example_defs cycle_defs)






lemma call_no_active:
  assumes "call config orc g s = Inr (m, g', s')" and "no_active_segment g i"
  shows "no_active_segment g' i"
  using assms(1)
proof (cases rule: call_steps)
  case (1 g1 s1 ac g2 s2 g3 s3)
  from updateActiveParents_facts[OF 1(1)] have "nodes_kept g g1" by blast
  then have "no_active_segment g1 i" using assms(2) by (rule nodes_kept_no_active)
  moreover from addSegmentEdges_facts[OF 1(2)] have "nodes_kept g1 g2" by blast
  ultimately have "no_active_segment g2 i" by (rule nodes_kept_no_active[rotated])
  then have "no_active_segment g3 i" by (rule clearActiveComponents_no_active[OF 1(3)])
  with detectObjects_more[OF 1(4), of i] show ?thesis by blast
qed

lemma call_marks_flag:
  assumes run: "call config orc g s = Inr (m, g', s')"
    and node: "getNode g i = Some n" "node_layer n = SEGMENTS"
    and new: "i \<notin> ignored s" "node_to_component s i = None"
    and low: "getBestScore orc (rowwise_mean (semantic_feature (attributes n))) < min_segment_score config"
  shows "no_active_segment g' i"
  using run
proof (cases rule: call_steps)
  case (1 g1 s1 ac g2 s2 g3 s3)
  from call_marks_low_score[OF run node new low] 1(1) 1(2)
  obtain n2 where "getNode g2 i = Some n2" "\<not> is_active (attributes n2)" by auto
  then have "no_active_segment g2 i" by (simp add: no_active_segment_def)
  then have "no_active_segment g3 i" by (rule clearActiveComponents_no_active[OF 1(3)])
  with detectObjects_more[OF 1(4), of i] show ?thesis by blast
qed

lemma call_avoids_ignored:
  assumes "call config orc g s = Inr (m, g', s')" and "i \<in> ignored s"
  shows "\<exists>evs. history s' = history s @ evs
       \<and> (\<forall>b. SegmentEdge i b \<notin> set evs)
       \<and> (\<forall>found. Discover found \<in> set evs \<longrightarrow> i \<notin> \<Union> (set ` set found))
       \<and> (\<forall>k cl. Cluster k cl \<in> set evs \<longrightarrow> (\<exists>gy ns. cl = getClusters orc gy ns \<and> i \<notin> set ns))"
  using assms(1)
proof (cases rule: call_steps)
  case (1 g1 s1 ac g2 s2 g3 s3)
  from updateActiveParents_facts[OF 1(1)] obtain a where
    a: "history s1 = history s @ a" "list_all (\<lambda>e. phase_rank e = 0) a"
    and ig1: "ignored s1 = ignored s" by blast
  from addSegmentEdges_facts[OF 1(2)] obtain b where
    b: "history s2 = history s1 @ b"
       "list_all (\<lambda>e. \<exists>x y. e = SegmentEdge x y \<and> x \<notin> ignored s1) b"
    and ig2: "ignored s1 \<subseteq> ignored s2" by blast
  from clearActiveComponents_facts[OF 1(3)] obtain r where
    r: "history s3 = history s2 @ r" "list_all (\<lambda>e. phase_rank e = 2) r"
    and ig3: "ignored s3 = ignored s2" by blast
  from detectObjects_more[OF 1(4), of i] obtain found c where
    c: "history s' = history s3 @ Discover found # c" "list_all (\<lambda>e. phase_rank e = 4) c"
       "\<forall>x. x \<in> \<Union> (set ` set found) \<longrightarrow> x \<notin> ignored s3 \<and> node_to_component s3 x = None"
       "\<forall>k cl. Cluster k cl \<in> set c \<longrightarrow> (\<exists>gy ns. ns \<in> set found \<and> cl = getClusters orc gy ns)"
    by blast
  have i3: "i \<in> ignored s3" using assms(2) ig1 ig2 ig3 by blast
  have out: "i \<notin> \<Union> (set ` set found)" using c(3) i3 by blast
  let ?evs = "a @ b @ r @ Discover found # c"
  have h: "history s' = history s @ ?evs" using a(1) b(1) r(1) c(1) by simp
  have mem: "e \<in> set ?evs \<longleftrightarrow> e \<in> set a \<or> e \<in> set b \<or> e \<in> set r \<or> e = Discover found \<or> e \<in> set c"
    for e by auto
  have ra: "e \<in> set a \<Longrightarrow> phase_rank e = 0" for e using a(2) by (simp add: list_all_iff)
  have rb: "e \<in> set b \<Longrightarrow> \<exists>x y. e = SegmentEdge x y \<and> x \<noteq> i" for e
    using b(2) assms(2) ig1 by (auto simp: list_all_iff)
  have rr: "e \<in> set r \<Longrightarrow> phase_rank e = 2" for e using r(2) by (simp add: list_all_iff)
  have rc: "e \<in> set c \<Longrightarrow> phase_rank e = 4" for e using c(2) by (simp add: list_all_iff)
  have A: "\<forall>y. SegmentEdge i y \<notin> set ?evs"
  proof
    fix y
    show "SegmentEdge i y \<notin> set ?evs"
      unfolding mem using ra[of "SegmentEdge i y"] rb[of "SegmentEdge i y"]
        rr[of "SegmentEdge i y"] rc[of "SegmentEdge i y"] by auto
  qed
  have B: "\<forall>f. Discover f \<in> set ?evs \<longrightarrow> i \<notin> \<Union> (set ` set f)"
  proof (intro allI impI)
    fix f assume "Discover f \<in> set ?evs"
    then have "f = found"
      unfolding mem using ra[of "Discover f"] rb[of "Discover f"] rr[of "Discover f"]
        rc[of "Discover f"] by auto
    with out show "i \<notin> \<Union> (set ` set f)" by simp
  qed
  have C: "\<forall>k cl. Cluster k cl \<in> set ?evs \<longrightarrow> (\<exists>gy ns. cl = getClusters orc gy ns \<and> i \<notin> set ns)"
  proof (intro allI impI)
    fix k cl assume "Cluster k cl \<in> set ?evs"
    then have "Cluster k cl \<in> set c"
      unfolding mem using ra[of "Cluster k cl"] rb[of "Cluster k cl"] rr[of "Cluster k cl"] by auto
    with c(4) obtain gy ns where ns: "ns \<in> set found" "cl = getClusters orc gy ns" by blast
    from ns(1) out have "i \<notin> set ns" by blast
    with ns(2) show "\<exists>gy ns. cl = getClusters orc gy ns \<and> i \<notin> set ns" by blast
  qed
  from h A B C show ?thesis by blast
qed

lemma later_avoids_ignored:
  "later_state config orc s s'' \<Longrightarrow> i \<in> ignored s \<Longrightarrow>
   \<exists>evs. history s'' = history s @ evs
       \<and> (\<forall>b. SegmentEdge i b \<notin> set evs)
       \<and> (\<forall>found. Discover found \<in> set evs \<longrightarrow> i \<notin> \<Union> (set ` set found))
       \<and> (\<forall>k cl. Cluster k cl \<in> set evs \<longrightarrow> (\<exists>gy ns. cl = getClusters orc gy ns \<and> i \<notin> set ns))"
proof (induction rule: later_state.induct)
  case later_now
  have "history s = history s @ []" by simp
  then show ?case by (intro exI[of _ "[]"]) simp
next
  case (later_cycle s1 g m g' s2)
  from later_cycle(3)[OF later_cycle(4)] obtain e1 where
    e1: "history s1 = history s @ e1" "\<forall>b. SegmentEdge i b \<notin> set e1"
      "\<forall>found. Discover found \<in> set e1 \<longrightarrow> i \<notin> \<Union> (set ` set found)"
      "\<forall>k cl. Cluster k cl \<in> set e1 \<longrightarrow> (\<exists>gy ns. cl = getClusters orc gy ns \<and> i \<notin> set ns)"
    by blast
  have "i \<in> ignored s1" using later_ignored[OF later_cycle(1)] later_cycle(4) by blast
  from call_avoids_ignored[OF later_cycle(2) this] obtain e2 where
    e2: "history s2 = history s1 @ e2" "\<forall>b. SegmentEdge i b \<notin> set e2"
      "\<forall>found. Discover found \<in> set e2 \<longrightarrow> i \<notin> \<Union> (set ` set found)"
      "\<forall>k cl. Cluster k cl \<in> set e2 \<longrightarrow> (\<exists>gy ns. cl = getClusters orc gy ns \<and> i \<notin> set ns)"
    by blast
  have h: "history s2 = history s @ (e1 @ e2)" using e1(1) e2(1) by simp
  have A: "\<forall>b. SegmentEdge i b \<notin> set (e1 @ e2)" using e1(2) e2(2) by simp
  have B: "\<forall>found. Discover found \<in> set (e1 @ e2) \<longrightarrow> i \<notin> \<Union> (set ` set found)"
    using e1(3) e2(3) by (metis Un_iff set_append)
  have C: "\<forall>k cl. Cluster k cl \<in> set (e1 @ e2)
             \<longrightarrow> (\<exists>gy ns. cl = getClusters orc gy ns \<and> i \<notin> set ns)"
    using e1(4) e2(4) by (metis Un_iff set_append)
  from h A B C show ?case by blast
qed

lemma call_edge_to_overlapping:
  assumes run: "call config orc g s = Inr (m, g', s')"
    and nj: "getNode g j = Some nj" "node_layer nj = SEGMENTS"
    and ni: "getNode g i = Some ni" "node_layer ni = SEGMENTS"
    and ne: "i \<noteq> j"
    and new: "j \<notin> ignored s" "node_to_component s j = None"
    and sc: "\<not> getBestScore orc (rowwise_mean (semantic_feature (attributes nj))) < min_segment_score config"
    and ov: "OverlapIntersection_call (edge_checker config) (attributes nj) (attributes ni)"
  shows "\<exists>evs. history s' = history s @ evs \<and> SegmentEdge j i \<in> set evs"
  using run
proof (cases rule: call_steps)
  case (1 g1 s1 ac g2 s2 g3 s3)
  note u = updateActiveParents_facts[OF 1(1)]
  from u have k: "nodes_kept g g1" and ig: "ignored s1 = ignored s"
    and nc: "node_to_component s1 = node_to_component s" by blast+
  from u obtain a where a: "history s1 = history s @ a" by blast
  from nodes_kept_node[OF k nj(1)] obtain n1j where
    n1j: "getNode g1 j = Some n1j" "node_kept nj n1j" by blast
  from nodes_kept_node[OF k ni(1)] obtain n1i where
    n1i: "getNode g1 i = Some n1i" "node_kept ni n1i" by blast
  have "in_layer g SEGMENTS j" "in_layer g SEGMENTS i" using nj ni by (simp_all add: in_layer_def)
  then have "in_layer g1 SEGMENTS j" "in_layer g1 SEGMENTS i" using nodes_kept_in_layer[OF k] by simp_all
  then have mem: "j \<in> set (layer_ids g1 SEGMENTS)" "i \<in> set (layer_ids g1 SEGMENTS)"
    by (simp_all add: set_layer_ids)
  have fold: "fold (examine_segment config orc (layer_ids g1 SEGMENTS)) (layer_ids g1 SEGMENTS)
                ({}, g1, s1) = (ac, g2, s2)"
    using 1(2) by (simp add: addSegmentEdges_def Let_def)
  have a1: "j \<notin> ignored s1" using new(1) ig by simp
  have a2: "node_to_component s1 j = None" using new(2) nc by simp
  have a3: "\<not> getBestScore orc (rowwise_mean (semantic_feature (attributes n1j)))
               < min_segment_score config"
    using sc n1j(2) by (simp add: node_kept_def)
  have "OverlapIntersection_call (edge_checker config) (attributes n1j) (attributes n1i)
          = OverlapIntersection_call (edge_checker config) (attributes nj) (attributes ni)"
    by (rule OverlapIntersection_boxes) (use n1j(2) n1i(2) in \<open>simp_all add: node_kept_def\<close>)
  with ov have a4: "OverlapIntersection_call (edge_checker config) (attributes n1j) (attributes n1i)"
    by simp
  from examine_segments_edge[OF fold mem(1) mem(2) ne n1j(1) n1i(1) a1 a2 a3 a4] obtain b where
    b: "history s2 = history s1 @ b" "SegmentEdge j i \<in> set b" by blast
  from clearActiveComponents_facts[OF 1(3)] obtain r where r: "history s3 = history s2 @ r" by blast
  from detectObjects_facts[OF 1(4)] obtain d where d: "history s' = history s3 @ d" by blast
  have "history s' = history s @ (a @ b @ r @ d) \<and> SegmentEdge j i \<in> set (a @ b @ r @ d)"
    using a b r d by simp
  then show ?thesis by blast
qed

lemma call_marks_discovery:
  assumes run: "call config orc g s = Inr (m, g', s')"
    and node: "getNode g i = Some n" "node_layer n = SEGMENTS"
    and new: "i \<notin> ignored s" "node_to_component s i = None"
    and low: "getBestScore orc (rowwise_mean (semantic_feature (attributes n))) < min_segment_score config"
  shows "\<exists>evs. history s' = history s @ evs
       \<and> (\<forall>found. Discover found \<in> set evs \<longrightarrow> i \<notin> \<Union> (set ` set found))
       \<and> (\<forall>k cl. Cluster k cl \<in> set evs \<longrightarrow> (\<exists>gy ns. cl = getClusters orc gy ns \<and> i \<notin> set ns))"
  using run
proof (cases rule: call_steps)
  case (1 g1 s1 ac g2 s2 g3 s3)
  from call_marks_low_score[OF run node new low] 1(1) 1(2)
  have i2: "i \<in> ignored s2" by auto
  from updateActiveParents_facts[OF 1(1)] obtain a where
    a: "history s1 = history s @ a" "list_all (\<lambda>e. phase_rank e = 0) a" by blast
  from addSegmentEdges_facts[OF 1(2)] obtain b where
    b: "history s2 = history s1 @ b"
       "list_all (\<lambda>e. \<exists>x y. e = SegmentEdge x y \<and> x \<notin> ignored s1) b" by blast
  from clearActiveComponents_facts[OF 1(3)] obtain r where
    r: "history s3 = history s2 @ r" "list_all (\<lambda>e. phase_rank e = 2) r"
    and ig3: "ignored s3 = ignored s2" by blast
  from detectObjects_more[OF 1(4), of i] obtain found c where
    c: "history s' = history s3 @ Discover found # c" "list_all (\<lambda>e. phase_rank e = 4) c"
       "\<forall>x. x \<in> \<Union> (set ` set found) \<longrightarrow> x \<notin> ignored s3 \<and> node_to_component s3 x = None"
       "\<forall>k cl. Cluster k cl \<in> set c \<longrightarrow> (\<exists>gy ns. ns \<in> set found \<and> cl = getClusters orc gy ns)"
    by blast
  have i3: "i \<in> ignored s3" using i2 ig3 by simp
  have out: "i \<notin> \<Union> (set ` set found)" using c(3) i3 by blast
  let ?evs = "a @ b @ r @ Discover found # c"
  have h: "history s' = history s @ ?evs" using a(1) b(1) r(1) c(1) by simp
  have mem: "e \<in> set ?evs \<longleftrightarrow> e \<in> set a \<or> e \<in> set b \<or> e \<in> set r \<or> e = Discover found \<or> e \<in> set c"
    for e by auto
  have ra: "e \<in> set a \<Longrightarrow> phase_rank e = 0" for e using a(2) by (simp add: list_all_iff)
  have rb: "e \<in> set b \<Longrightarrow> \<exists>x y. e = SegmentEdge x y" for e
    using b(2) by (auto simp: list_all_iff)
  have rr: "e \<in> set r \<Longrightarrow> phase_rank e = 2" for e using r(2) by (simp add: list_all_iff)
  have rc: "e \<in> set c \<Longrightarrow> phase_rank e = 4" for e using c(2) by (simp add: list_all_iff)
  have B: "\<forall>f. Discover f \<in> set ?evs \<longrightarrow> i \<notin> \<Union> (set ` set f)"
  proof (intro allI impI)
    fix f assume "Discover f \<in> set ?evs"
    then have "f = found"
      unfolding mem using ra[of "Discover f"] rb[of "Discover f"] rr[of "Discover f"]
        rc[of "Discover f"] by auto
    with out show "i \<notin> \<Union> (set ` set f)" by simp
  qed
  have C: "\<forall>k cl. Cluster k cl \<in> set ?evs \<longrightarrow> (\<exists>gy ns. cl = getClusters orc gy ns \<and> i \<notin> set ns)"
  proof (intro allI impI)
    fix k cl assume "Cluster k cl \<in> set ?evs"
    then have "Cluster k cl \<in> set c"
      unfolding mem using ra[of "Cluster k cl"] rb[of "Cluster k cl"] rr[of "Cluster k cl"] by auto
    with c(4) obtain gy ns where ns: "ns \<in> set found" "cl = getClusters orc gy ns" by blast
    from ns(1) out have "i \<notin> set ns" by blast
    with ns(2) show "\<exists>gy ns. cl = getClusters orc gy ns \<and> i \<notin> set ns" by blast
  qed
  from h B C show ?thesis by blast
qed

lemma low_score_nodes:
  "getNode low_score_graph 1 = Some (segment_node 0 2 0 None)"
  "getNode low_score_graph_later 1
     = Some ((segment_node 0 2 0 None)
               \<lparr>attributes := (attributes (segment_node 0 2 0 None))\<lparr>is_active := False\<rparr>\<rparr>)"
  "getNode low_score_graph_later 2 = Some (segment_node 1 3 1 None)"
  "map_option (\<lambda>n. is_active (attributes n))
     (getNode (graph_after example_config example_oracles low_score_graph
                 (ObjectUpdateFunctor_init example_config)) 1) = Some False"
  "map_option (\<lambda>n. is_active (attributes n))
     (getNode (graph_after example_config example_oracles low_score_graph_later
        (state_after example_config example_oracles low_score_graph
           (ObjectUpdateFunctor_init example_config))) 1) = Some False"
  "history (state_after example_config example_oracles low_score_graph
              (ObjectUpdateFunctor_init example_config)) = [Discover []]"
  "components (state_after example_config example_oracles low_score_graph
              (ObjectUpdateFunctor_init example_config)) = []"
  "node_to_component (state_after example_config example_oracles low_score_graph
              (ObjectUpdateFunctor_init example_config)) 2 = None"
  by (simp_all add: cycle_returns_def state_after_def graph_after_def low_score_graph_later_def
        low_score_graph_def example_defs cycle_defs)

subsection \<open>Components, ignored segments, phases and the Active Set\<close>

text \<open>
  C7. In every state the functor can reach, live components have distinct identifiers
  and the segment lists of two of them share no id: a segment id belongs to at most one
  live component.
\<close>

theorem live_components_share_no_segment:
  assumes "reachable config orc s"
  shows "distinct (map fst (components s)) \<and> segments_disjoint s"
  using reachable_invariant[OF assms] by (simp add: component_invariant_def)

theorem live_components_share_no_segment_witness:
  "reachable example_config example_oracles
     (state_after example_config example_oracles apart_graph (ObjectUpdateFunctor_init example_config))
   \<and> components (state_after example_config example_oracles apart_graph
                   (ObjectUpdateFunctor_init example_config))
       = [(0, \<lparr>segments = [10], objects = [0]\<rparr>), (1, \<lparr>segments = [11], objects = [1]\<rparr>)]
   \<and> distinct (map fst (components (state_after example_config example_oracles apart_graph
                                        (ObjectUpdateFunctor_init example_config))))"
proof -
  let ?s = "state_after example_config example_oracles apart_graph (ObjectUpdateFunctor_init example_config)"
  have r: "reachable example_config example_oracles ?s"
    by (rule reachable_cycle[OF reachable_init cycle_returns_call[OF apart_cycle(1)]])
  from live_components_share_no_segment[OF r] have "distinct (map fst (components ?s))" by simp
  with r apart_cycle(2) show ?thesis by simp
qed

text \<open>
  C1, as stated, fails: in a cycle over a graph with a place, an unattached object and
  two new segments, the attachment of the object is the first thing that happens, before
  discovery and materialization.
\<close>

theorem claimed_phase_order_counterexample:
  "cycle_returns example_config example_oracles cycle_graph (ObjectUpdateFunctor_init example_config)
   \<and> \<not> sorted (map claimed_phase_rank
          (history (state_after example_config example_oracles cycle_graph
                      (ObjectUpdateFunctor_init example_config))))"
  unfolding cycle_graph_history(2) using cycle_graph_history(1) by simp

text \<open>
  C1, amended. The events of a cycle that returns are, in this order: the anchor
  attachments of the active objects, the segment edges, the component retirements, the
  discovery of the connected components, and the clustering and materialization of the
  new components. Retirement is complete before discovery, discovery before clustering
  and materialization, and anchor attachment comes first, not last.
\<close>

theorem cycle_phase_order:
  assumes "call config orc g s = Inr (m, g', s')"
  shows "\<exists>a b r found c. history s' = history s @ a @ b @ r @ Discover found # c
       \<and> list_all (\<lambda>e. phase_rank e = 0) a
       \<and> list_all (\<lambda>e. phase_rank e = 1) b
       \<and> list_all (\<lambda>e. phase_rank e = 2) r
       \<and> list_all (\<lambda>e. phase_rank e = 4) c
       \<and> sorted (map phase_rank (a @ b @ r @ Discover found # c))"
proof -
  from call_history[OF assms] obtain a b r found c where
    h: "history s' = history s @ a @ b @ r @ Discover found # c"
    and a: "list_all (\<lambda>e. phase_rank e = 0) a"
    and b0: "list_all (\<lambda>e. \<exists>x y. e = SegmentEdge x y \<and> x \<notin> ignored s) b"
    and r: "list_all (\<lambda>e. phase_rank e = 2) r"
    and c: "list_all (\<lambda>e. phase_rank e = 4) c" by blast
  have b: "list_all (\<lambda>e. phase_rank e = 1) b" using b0 by (auto simp: list_all_iff)
  from h a b r c sorted_phases[OF a b r c] show ?thesis by blast
qed

theorem cycle_phase_order_witness:
  "history (state_after example_config example_oracles cycle_graph
              (ObjectUpdateFunctor_init example_config))
     = [DiscardingNearestNeighbor 100 50, Attach 100 50, SegmentEdge 10 11, SegmentEdge 11 10,
        Discover [[10, 11]], Cluster 0 [[10, 11]], Materialize 0, WithoutParent 0]
   \<and> (\<exists>a b r found c.
     history (state_after example_config example_oracles cycle_graph
                (ObjectUpdateFunctor_init example_config))
       = history (ObjectUpdateFunctor_init example_config) @ a @ b @ r @ Discover found # c
     \<and> list_all (\<lambda>e. phase_rank e = 0) a
     \<and> list_all (\<lambda>e. phase_rank e = 1) b
     \<and> list_all (\<lambda>e. phase_rank e = 2) r
     \<and> list_all (\<lambda>e. phase_rank e = 4) c
     \<and> sorted (map phase_rank (a @ b @ r @ Discover found # c)))"
  using cycle_graph_history(2) cycle_phase_order[OF cycle_returns_call[OF cycle_graph_history(1)]]
  by blast

text \<open>
  C3, as stated, fails: segment 1 scores below the minimum in a first cycle and is
  ignored; in the next cycle the new segment 2 overlaps it, and the pairwise check of
  segment 2 inserts the edge from 2 to 1.
\<close>

theorem ignored_segment_edge_counterexample:
  "cycle_returns example_config example_oracles low_score_graph (ObjectUpdateFunctor_init example_config)
   \<and> ignored (state_after example_config example_oracles low_score_graph
                (ObjectUpdateFunctor_init example_config)) = {1}
   \<and> cycle_returns example_config example_oracles low_score_graph_later
        (state_after example_config example_oracles low_score_graph
           (ObjectUpdateFunctor_init example_config))
   \<and> edges (graph_after example_config example_oracles low_score_graph_later
        (state_after example_config example_oracles low_score_graph
           (ObjectUpdateFunctor_init example_config))) = [(2, 1)]"
  using low_score_cycles(1,2,3,4) by simp

text \<open>
  C3, amended. A segment that is examined in a cycle and scores below the minimum is
  put into the ignored set and its active flag is cleared by the edge-detection pass of
  that cycle; the graph that the cycle returns has no active segment of this id, and
  no later cycle makes one. From then on, in every later state, the segment is still
  ignored and belongs to no live component. No edge insertion of a later cycle starts
  from it; no group that component discovery returns, in that cycle or in a later one,
  contains it; and the node list of every component that is clustered is free of it,
  so that no cluster contains it as long as the clustering returns only nodes of the
  list it is given. An edge to it is still inserted: in a cycle from any later state,
  every new segment that passes the score test and whose box overlaps the box of the
  ignored segment gets the edge to it inserted, and the discovery of that same cycle
  puts the ignored segment in no group.
\<close>

theorem ignored_segment_stays_out:
  assumes "reachable config orc s"
    and "call config orc g s = Inr (m, g', s')"
    and "getNode g i = Some n" and "node_layer n = SEGMENTS"
    and "i \<notin> ignored s" and "node_to_component s i = None"
    and "getBestScore orc (rowwise_mean (semantic_feature (attributes n))) < min_segment_score config"
    and "later_state config orc s' s''"
  shows "i \<in> ignored s''
       \<and> (\<forall>(k, c) \<in> set (components s''). i \<notin> set (segments c))
       \<and> (\<exists>g1 s1 ac g2 s2 n2. updateActiveParents config orc g s = Inr (g1, s1)
             \<and> addSegmentEdges config orc g1 s1 = (ac, g2, s2)
             \<and> i \<in> ignored s2 \<and> getNode g2 i = Some n2 \<and> \<not> is_active (attributes n2))
       \<and> no_active_segment g' i
       \<and> (\<exists>evs. history s' = history s @ evs
             \<and> (\<forall>found. Discover found \<in> set evs \<longrightarrow> i \<notin> \<Union> (set ` set found))
             \<and> (\<forall>k cl. Cluster k cl \<in> set evs
                   \<longrightarrow> (\<exists>gy ns. cl = getClusters orc gy ns \<and> i \<notin> set ns)))
       \<and> (\<exists>evs. history s'' = history s' @ evs
             \<and> (\<forall>b. SegmentEdge i b \<notin> set evs)
             \<and> (\<forall>found. Discover found \<in> set evs \<longrightarrow> i \<notin> \<Union> (set ` set found))
             \<and> (\<forall>k cl. Cluster k cl \<in> set evs
                   \<longrightarrow> (\<exists>gy ns. cl = getClusters orc gy ns \<and> i \<notin> set ns))
             \<and> ((\<forall>gy ns. \<Union> (set ` set (getClusters orc gy ns)) \<subseteq> set ns)
                   \<longrightarrow> (\<forall>k cl. Cluster k cl \<in> set evs \<longrightarrow> i \<notin> \<Union> (set ` set cl))))
       \<and> (call config orc gx s'' = Inr (mx, gz, sz) \<longrightarrow>
             (no_active_segment gx i \<longrightarrow> no_active_segment gz i)
           \<and> (getNode gx i = Some ni \<and> node_layer ni = SEGMENTS
              \<and> getNode gx j = Some nj \<and> node_layer nj = SEGMENTS
              \<and> j \<notin> ignored s'' \<and> node_to_component s'' j = None
              \<and> \<not> getBestScore orc (rowwise_mean (semantic_feature (attributes nj)))
                     < min_segment_score config
              \<and> OverlapIntersection_call (edge_checker config) (attributes nj) (attributes ni)
              \<longrightarrow> (\<exists>evs. history sz = history s'' @ evs
                     \<and> SegmentEdge j i \<in> set evs
                     \<and> (\<forall>found. Discover found \<in> set evs \<longrightarrow> i \<notin> \<Union> (set ` set found)))))"
proof -
  note mark = call_marks_low_score[OF assms(2) assms(3) assms(4) assms(5) assms(6) assms(7)]
  from mark have i1: "i \<in> ignored s'" by blast
  have a: "i \<in> ignored s''" using later_ignored[OF assms(8)] i1 by blast
  have "reachable config orc s'" by (rule reachable_cycle[OF assms(1) assms(2)])
  then have "reachable config orc s''" by (rule later_reachable[OF assms(8)])
  then have "segments_registered s''"
    using reachable_invariant by (auto simp: component_invariant_def)
  with a have b: "\<forall>(k, c) \<in> set (components s''). i \<notin> set (segments c)"
    unfolding segments_registered_def by blast
  from mark have c: "\<exists>g1 s1 ac g2 s2 n2. updateActiveParents config orc g s = Inr (g1, s1)
             \<and> addSegmentEdges config orc g1 s1 = (ac, g2, s2)
             \<and> i \<in> ignored s2 \<and> getNode g2 i = Some n2 \<and> \<not> is_active (attributes n2)" by blast
  note d = call_marks_flag[OF assms(2) assms(3) assms(4) assms(5) assms(6) assms(7)]
  note e = call_marks_discovery[OF assms(2) assms(3) assms(4) assms(5) assms(6) assms(7)]
  from later_avoids_ignored[OF assms(8) i1] obtain evs where
    evs: "history s'' = history s' @ evs" "\<forall>b. SegmentEdge i b \<notin> set evs"
      "\<forall>found. Discover found \<in> set evs \<longrightarrow> i \<notin> \<Union> (set ` set found)"
      "\<forall>k cl. Cluster k cl \<in> set evs \<longrightarrow> (\<exists>gy ns. cl = getClusters orc gy ns \<and> i \<notin> set ns)"
    by blast
  have part: "(\<forall>gy ns. \<Union> (set ` set (getClusters orc gy ns)) \<subseteq> set ns)
                \<longrightarrow> (\<forall>k cl. Cluster k cl \<in> set evs \<longrightarrow> i \<notin> \<Union> (set ` set cl))"
  proof (intro impI allI)
    fix k cl
    assume p: "\<forall>gy ns. \<Union> (set ` set (getClusters orc gy ns)) \<subseteq> set ns"
      and "Cluster k cl \<in> set evs"
    with evs(4) obtain gy ns where ns: "cl = getClusters orc gy ns" "i \<notin> set ns" by blast
    from p have "\<Union> (set ` set (getClusters orc gy ns)) \<subseteq> set ns" by blast
    with ns show "i \<notin> \<Union> (set ` set cl)" by blast
  qed
  from evs part have f: "\<exists>evs. history s'' = history s' @ evs
             \<and> (\<forall>b. SegmentEdge i b \<notin> set evs)
             \<and> (\<forall>found. Discover found \<in> set evs \<longrightarrow> i \<notin> \<Union> (set ` set found))
             \<and> (\<forall>k cl. Cluster k cl \<in> set evs
                   \<longrightarrow> (\<exists>gy ns. cl = getClusters orc gy ns \<and> i \<notin> set ns))
             \<and> ((\<forall>gy ns. \<Union> (set ` set (getClusters orc gy ns)) \<subseteq> set ns)
                   \<longrightarrow> (\<forall>k cl. Cluster k cl \<in> set evs \<longrightarrow> i \<notin> \<Union> (set ` set cl)))"
    by blast
  have h: "call config orc gx s'' = Inr (mx, gz, sz) \<longrightarrow>
             (no_active_segment gx i \<longrightarrow> no_active_segment gz i)
           \<and> (getNode gx i = Some ni \<and> node_layer ni = SEGMENTS
              \<and> getNode gx j = Some nj \<and> node_layer nj = SEGMENTS
              \<and> j \<notin> ignored s'' \<and> node_to_component s'' j = None
              \<and> \<not> getBestScore orc (rowwise_mean (semantic_feature (attributes nj)))
                     < min_segment_score config
              \<and> OverlapIntersection_call (edge_checker config) (attributes nj) (attributes ni)
              \<longrightarrow> (\<exists>evs. history sz = history s'' @ evs
                     \<and> SegmentEdge j i \<in> set evs
                     \<and> (\<forall>found. Discover found \<in> set evs \<longrightarrow> i \<notin> \<Union> (set ` set found))))"
  proof
    assume run: "call config orc gx s'' = Inr (mx, gz, sz)"
    have h1: "no_active_segment gx i \<longrightarrow> no_active_segment gz i"
      using call_no_active[OF run] by blast
    have h2: "getNode gx i = Some ni \<and> node_layer ni = SEGMENTS
              \<and> getNode gx j = Some nj \<and> node_layer nj = SEGMENTS
              \<and> j \<notin> ignored s'' \<and> node_to_component s'' j = None
              \<and> \<not> getBestScore orc (rowwise_mean (semantic_feature (attributes nj)))
                     < min_segment_score config
              \<and> OverlapIntersection_call (edge_checker config) (attributes nj) (attributes ni)
              \<longrightarrow> (\<exists>evs. history sz = history s'' @ evs
                     \<and> SegmentEdge j i \<in> set evs
                     \<and> (\<forall>found. Discover found \<in> set evs \<longrightarrow> i \<notin> \<Union> (set ` set found)))"
    proof
      assume p: "getNode gx i = Some ni \<and> node_layer ni = SEGMENTS
              \<and> getNode gx j = Some nj \<and> node_layer nj = SEGMENTS
              \<and> j \<notin> ignored s'' \<and> node_to_component s'' j = None
              \<and> \<not> getBestScore orc (rowwise_mean (semantic_feature (attributes nj)))
                     < min_segment_score config
              \<and> OverlapIntersection_call (edge_checker config) (attributes nj) (attributes ni)"
      then have ne: "i \<noteq> j" using a by blast
      from p have p1: "getNode gx j = Some nj" and p2: "node_layer nj = SEGMENTS"
        and p3: "getNode gx i = Some ni" and p4: "node_layer ni = SEGMENTS"
        and p5: "j \<notin> ignored s''" and p6: "node_to_component s'' j = None"
        and p7: "\<not> getBestScore orc (rowwise_mean (semantic_feature (attributes nj)))
                     < min_segment_score config"
        and p8: "OverlapIntersection_call (edge_checker config) (attributes nj) (attributes ni)"
        by simp_all
      from call_edge_to_overlapping[OF run p1 p2 p3 p4 ne p5 p6 p7 p8] obtain e1 where
        e1: "history sz = history s'' @ e1" "SegmentEdge j i \<in> set e1" by blast
      from call_avoids_ignored[OF run a] obtain e2 where
        e2: "history sz = history s'' @ e2"
          "\<forall>found. Discover found \<in> set e2 \<longrightarrow> i \<notin> \<Union> (set ` set found)" by blast
      from e1(1) e2(1) have "e2 = e1" by simp
      with e1 e2(2) show "\<exists>evs. history sz = history s'' @ evs
                     \<and> SegmentEdge j i \<in> set evs
                     \<and> (\<forall>found. Discover found \<in> set evs \<longrightarrow> i \<notin> \<Union> (set ` set found))"
        by blast
    qed
    from h1 h2 show "(no_active_segment gx i \<longrightarrow> no_active_segment gz i)
           \<and> (getNode gx i = Some ni \<and> node_layer ni = SEGMENTS
              \<and> getNode gx j = Some nj \<and> node_layer nj = SEGMENTS
              \<and> j \<notin> ignored s'' \<and> node_to_component s'' j = None
              \<and> \<not> getBestScore orc (rowwise_mean (semantic_feature (attributes nj)))
                     < min_segment_score config
              \<and> OverlapIntersection_call (edge_checker config) (attributes nj) (attributes ni)
              \<longrightarrow> (\<exists>evs. history sz = history s'' @ evs
                     \<and> SegmentEdge j i \<in> set evs
                     \<and> (\<forall>found. Discover found \<in> set evs \<longrightarrow> i \<notin> \<Union> (set ` set found))))"
      by (rule conjI)
  qed
  show ?thesis
    apply (rule conjI, rule a)
    apply (rule conjI, rule b)
    apply (rule conjI, rule c)
    apply (rule conjI, rule d)
    apply (rule conjI, rule e)
    apply (rule conjI, rule f)
    apply (rule h)
    done
qed

theorem ignored_segment_stays_out_witness:
  "reachable example_config example_oracles (ObjectUpdateFunctor_init example_config)
   \<and> getNode low_score_graph 1 = Some (segment_node 0 2 0 None)
   \<and> getBestScore example_oracles (rowwise_mean (semantic_feature (attributes (segment_node 0 2 0 None))))
       < min_segment_score example_config
   \<and> 1 \<in> ignored (state_after example_config example_oracles low_score_graph
                     (ObjectUpdateFunctor_init example_config))
   \<and> components (state_after example_config example_oracles low_score_graph
                   (ObjectUpdateFunctor_init example_config)) = []
   \<and> map_option (\<lambda>n. is_active (attributes n))
        (getNode (graph_after example_config example_oracles low_score_graph
                    (ObjectUpdateFunctor_init example_config)) 1) = Some False
   \<and> getNode low_score_graph_later 2 = Some (segment_node 1 3 1 None)
   \<and> OverlapIntersection_call (edge_checker example_config)
        (attributes (segment_node 1 3 1 None)) (attributes (segment_node 0 2 0 None))
   \<and> history (state_after example_config example_oracles low_score_graph_later
        (state_after example_config example_oracles low_score_graph
           (ObjectUpdateFunctor_init example_config)))
      = history (state_after example_config example_oracles low_score_graph
                   (ObjectUpdateFunctor_init example_config))
        @ [SegmentEdge 2 1, Discover [[2]], Cluster 0 [[2]], Materialize 0, WithoutParent 0]
   \<and> map_option (\<lambda>n. is_active (attributes n))
        (getNode (graph_after example_config example_oracles low_score_graph_later
           (state_after example_config example_oracles low_score_graph
              (ObjectUpdateFunctor_init example_config))) 1) = Some False
   \<and> 1 \<in> ignored (state_after example_config example_oracles low_score_graph_later
        (state_after example_config example_oracles low_score_graph
           (ObjectUpdateFunctor_init example_config)))
   \<and> components (state_after example_config example_oracles low_score_graph_later
        (state_after example_config example_oracles low_score_graph
           (ObjectUpdateFunctor_init example_config)))
      = [(0, \<lparr>segments = [2], objects = [0]\<rparr>)]
   \<and> (\<exists>evs. history (state_after example_config example_oracles low_score_graph_later
                 (state_after example_config example_oracles low_score_graph
                    (ObjectUpdateFunctor_init example_config)))
             = history (state_after example_config example_oracles low_score_graph
                          (ObjectUpdateFunctor_init example_config)) @ evs
           \<and> SegmentEdge 2 1 \<in> set evs
           \<and> Discover [[2]] \<in> set evs)"
proof -
  let ?s0 = "ObjectUpdateFunctor_init example_config"
  let ?s1 = "state_after example_config example_oracles low_score_graph ?s0"
  let ?s2 = "state_after example_config example_oracles low_score_graph_later ?s1"
  let ?ni = "(segment_node 0 2 0 None)
               \<lparr>attributes := (attributes (segment_node 0 2 0 None))\<lparr>is_active := False\<rparr>\<rparr>"
  let ?nj = "segment_node 1 3 1 None"
  have r: "reachable example_config example_oracles ?s0" by (rule reachable_init)
  note c1 = cycle_returns_call[OF low_score_cycles(1)]
  note c2 = cycle_returns_call[OF low_score_cycles(3)]
  note node = low_score_nodes(1)
  have lay: "node_layer (segment_node 0 2 0 None) = SEGMENTS" by (simp add: segment_node_def)
  have new: "1 \<notin> ignored ?s0" "node_to_component ?s0 1 = None"
    by (simp_all add: ObjectUpdateFunctor_init_def)
  have low: "getBestScore example_oracles
               (rowwise_mean (semantic_feature (attributes (segment_node 0 2 0 None))))
             < min_segment_score example_config"
    by (simp add: example_oracles_def example_config_def segment_node_def rowwise_mean_def)
  have ov: "OverlapIntersection_call (edge_checker example_config)
              (attributes (segment_node 1 3 1 None)) (attributes (segment_node 0 2 0 None))"
    by (simp add: example_defs OverlapIntersection_call_def vmin_def vsub_def all_le_def all_ge_def)
  have prem: "getNode low_score_graph_later 1 = Some ?ni \<and> node_layer ?ni = SEGMENTS
              \<and> getNode low_score_graph_later 2 = Some ?nj \<and> node_layer ?nj = SEGMENTS
              \<and> 2 \<notin> ignored ?s1 \<and> node_to_component ?s1 2 = None
              \<and> \<not> getBestScore example_oracles (rowwise_mean (semantic_feature (attributes ?nj)))
                     < min_segment_score example_config
              \<and> OverlapIntersection_call (edge_checker example_config) (attributes ?nj) (attributes ?ni)"
    using low_score_nodes(2,3,8) low_score_cycles(2)
    by (simp add: example_defs rowwise_mean_def OverlapIntersection_call_def vmin_def vsub_def
          all_le_def all_ge_def)
  note T = ignored_segment_stays_out[OF r c1 node lay new low later_now,
      where gx = low_score_graph_later and mx = "[]"
        and gz = "graph_after example_config example_oracles low_score_graph_later ?s1"
        and sz = ?s2 and j = 2 and nj = ?nj and ni = ?ni]
  from T have t1: "1 \<in> ignored ?s1" by (rule conjunct1)
  have l: "later_state example_config example_oracles ?s1 ?s2"
    by (rule later_cycle[OF later_now c2])
  from ignored_segment_stays_out[OF r c1 node lay new low l]
  have t2: "1 \<in> ignored ?s2" by (rule conjunct1)
  note t7 = T[THEN conjunct2, THEN conjunct2, THEN conjunct2, THEN conjunct2, THEN conjunct2,
              THEN conjunct2, THEN mp, OF c2, THEN conjunct2, THEN mp, OF prem]
  from t7 obtain evs where evs: "history ?s2 = history ?s1 @ evs" "SegmentEdge 2 1 \<in> set evs"
    by blast
  have h: "history ?s2 = history ?s1 @ [SegmentEdge 2 1, Discover [[2]], Cluster 0 [[2]],
                                         Materialize 0, WithoutParent 0]"
    unfolding low_score_cycles(5) low_score_nodes(6) by simp
  from evs(1) h have "evs = [SegmentEdge 2 1, Discover [[2]], Cluster 0 [[2]],
                             Materialize 0, WithoutParent 0]" by simp
  then have d: "Discover [[2]] \<in> set evs" by simp
  from evs d have ex: "\<exists>evs. history ?s2 = history ?s1 @ evs \<and> SegmentEdge 2 1 \<in> set evs
                          \<and> Discover [[2]] \<in> set evs" by blast
  show ?thesis
    apply (rule conjI, rule r)
    apply (rule conjI, rule node)
    apply (rule conjI, rule low)
    apply (rule conjI, rule t1)
    apply (rule conjI, rule low_score_nodes(7))
    apply (rule conjI, rule low_score_nodes(4))
    apply (rule conjI, rule low_score_nodes(3))
    apply (rule conjI, rule ov)
    apply (rule conjI, rule h)
    apply (rule conjI, rule low_score_nodes(5))
    apply (rule conjI, rule t2)
    apply (rule conjI, rule low_score_cycles(6))
    apply (rule ex)
    done
qed




end
